theory Spec2Isabelle
  imports Complex_Main
begin

section \<open>The architecture-to-files pipeline of \<^verbatim>\<open>execute.py\<close>\<close>

text \<open>
  The program asks a text service for an architecture proposal (a JSON value), shows it,
  waits for a yes/no answer on the console, and then mirrors the proposal's
  \<^verbatim>\<open>file_scaffolding\<close> under the directory \<^verbatim>\<open>Output\<close>, asking the service for the
  content of every file. Everything it touches outside its own variables is made explicit
  in a record \<open>world\<close>: the file tree, the console input and output, the service and the
  log of the requests sent to it, and the global variable \<^verbatim>\<open>architecture_data\<close>.
  A Python exception that the program does not catch is the value \<open>Inl e\<close>, returned
  together with the world as it was left.
\<close>

subsection \<open>Strings\<close>

text \<open>
  A Python string is modelled as a \<^typ>\<open>string\<close>; a \<^typ>\<open>char\<close> stands for the code point of
  the same number, so the model covers texts whose code points are below 256.
  \<^verbatim>\<open>str.isspace\<close> and \<^verbatim>\<open>str.lower\<close> are written out for that range.
\<close>

definition isspace :: "char \<Rightarrow> bool" where
  "isspace c =
     (let n = (of_char c :: nat)
      in (9 \<le> n \<and> n \<le> 13) \<or> (28 \<le> n \<and> n \<le> 32) \<or> n = 133 \<or> n = 160)"

definition lower_char :: "char \<Rightarrow> char" where
  "lower_char c =
     (let n = (of_char c :: nat)
      in if (65 \<le> n \<and> n \<le> 90) \<or> (192 \<le> n \<and> n \<le> 222 \<and> n \<noteq> 215)
         then char_of (n + 32) else c)"

definition lower :: "string \<Rightarrow> string" where
  "lower s = map lower_char s"

definition strip :: "string \<Rightarrow> string" where
  "strip s = rev (dropWhile isspace (rev (dropWhile isspace s)))"

definition rstrip :: "string \<Rightarrow> string \<Rightarrow> string" where
  "rstrip chars s = rev (dropWhile (\<lambda>c. c \<in> set chars) (rev s))"

subsection \<open>JSON values\<close>

text \<open>
  What \<^verbatim>\<open>json.loads\<close> returns. An object is an association list in insertion order (a
  Python \<^verbatim>\<open>dict\<close>; its keys are pairwise distinct). Python's \<^verbatim>\<open>None\<close> is \<open>JNull\<close>. The
  program never computes with a number: it only tests one for truth, so a float is
  represented by a rational (an infinity or a NaN behaves as any non-zero float does).
\<close>

datatype json =
    JNull
  | JBool bool
  | JInt int
  | JFloat rat
  | JStr string
  | JArr "json list"
  | JObj "(string \<times> json) list"

fun truthy :: "json \<Rightarrow> bool" where
  "truthy JNull = False"
| "truthy (JBool b) = b"
| "truthy (JInt n) = (n \<noteq> 0)"
| "truthy (JFloat r) = (r \<noteq> 0)"
| "truthy (JStr s) = (s \<noteq> [])"
| "truthy (JArr xs) = (xs \<noteq> [])"
| "truthy (JObj kvs) = (kvs \<noteq> [])"

text \<open>\<^verbatim>\<open>d.get(key, default)\<close> on a dict.\<close>

definition dict_get :: "(string \<times> json) list \<Rightarrow> string \<Rightarrow> json \<Rightarrow> json" where
  "dict_get kvs key dflt = (case map_of kvs key of Some v \<Rightarrow> v | None \<Rightarrow> dflt)"

subsection \<open>The world\<close>

datatype node = Dir | File string

datatype error =
    EOFError
  | AttributeError
  | FileExistsError
  | FileNotFoundError
  | NotADirectoryError
  | IsADirectoryError

text \<open>
  A request to the service: the architecture prompt carries the description, a file
  prompt carries the proposal's narrative and stack, the folder and the file name.
\<close>

datatype request =
    Architecture_request string
  | File_request json json string string

text \<open>
  The lines the program prints, one constructor per \<^verbatim>\<open>print\<close> or \<^verbatim>\<open>input\<close> prompt of the
  source (the layout of the rendered proposal is not modelled: it is one event).
\<close>

datatype event =
    Enter_description
  | Error_architecture
  | Could_not_retrieve
  | Proposal json
  | Ask_approval
  | Please_type_yes_or_no
  | Not_approved
  | Approved
  | Requesting string string
  | Failed_to_retrieve string
  | Error_file_content
  | Saved_file string
  | Error_saving string
  | All_done

text \<open>
  The file tree maps the absolute path of an entry, as its list of components, to what
  is there; the root \<open>[]\<close> is a directory. There are no symbolic links, permissions or
  full disks in the model. \<open>stdin\<close> gives the console's lines by position (\<open>None\<close> is
  end of input) and \<open>reads\<close> counts the lines consumed. \<open>service\<close> gives the text of the
  first completion for the n-th request of the session, or \<open>None\<close> when the request
  raises; \<open>requests\<close> is the log of the requests sent so far.
\<close>

record world =
  nodes :: "string list \<Rightarrow> node option"
  cwd :: "string list"
  stdin :: "nat \<Rightarrow> string option"
  reads :: nat
  stdout :: "event list"
  service :: "nat \<Rightarrow> request \<Rightarrow> string option"
  requests :: "request list"
  architecture_data :: json

definition emit :: "event \<Rightarrow> world \<Rightarrow> world" where
  "emit e w = w\<lparr>stdout := stdout w @ [e]\<rparr>"

text \<open>\<^verbatim>\<open>input(prompt)\<close>: prints the prompt, then reads a line or raises at end of input.\<close>

definition input_line :: "event \<Rightarrow> world \<Rightarrow> (error + string) \<times> world" where
  "input_line prompt w =
     (let w1 = emit prompt w
      in case stdin w1 (reads w1) of
           None \<Rightarrow> (Inl EOFError, w1)
         | Some line \<Rightarrow> (Inr line, w1\<lparr>reads := reads w1 + 1\<rparr>))"

text \<open>One round trip of \<^verbatim>\<open>openai.ChatCompletion.create\<close>.\<close>

definition send_request :: "request \<Rightarrow> world \<Rightarrow> string option \<times> world" where
  "send_request r w = (service w (length (requests w)) r, w\<lparr>requests := requests w @ [r]\<rparr>)"

subsection \<open>Paths and the file tree\<close>

definition OUTPUT_PATH :: string where
  "OUTPUT_PATH = ''Output''"

text \<open>\<^verbatim>\<open>posixpath.join\<close> of two parts.\<close>

definition path_join :: "string \<Rightarrow> string \<Rightarrow> string" where
  "path_join a b =
     (if (case b of [] \<Rightarrow> False | c # _ \<Rightarrow> c = CHR ''/'') then b
      else if a = [] \<or> last a = CHR ''/'' then a @ b
      else a @ ''/'' @ b)"

primrec split_on :: "char \<Rightarrow> string \<Rightarrow> string list" where
  "split_on sep [] = [[]]"
| "split_on sep (x # xs) =
     (if x = sep then [] # split_on sep xs
      else (case split_on sep xs of [] \<Rightarrow> [[x]] | h # t \<Rightarrow> (x # h) # t))"

definition components :: "string \<Rightarrow> string list" where
  "components s = filter (\<lambda>c. c \<noteq> []) (split_on CHR ''/'' s)"

definition is_absolute :: "string \<Rightarrow> bool" where
  "is_absolute s = (case s of [] \<Rightarrow> False | c # _ \<Rightarrow> c = CHR ''/'')"

definition ends_with_sep :: "string \<Rightarrow> bool" where
  "ends_with_sep s = (s \<noteq> [] \<and> last s = CHR ''/'')"

definition lookup :: "(string list \<Rightarrow> node option) \<Rightarrow> string list \<Rightarrow> node option" where
  "lookup t p = (if p = [] then Some Dir else t p)"

definition step :: "string list \<Rightarrow> string \<Rightarrow> string list" where
  "step cur c = (if c = ''.'' then cur else if c = ''..'' then butlast cur else cur @ [c])"

text \<open>
  Path resolution as the kernel does it: every component is looked up in a directory
  that exists; the entry the last component names need not exist.
\<close>

fun walk :: "(string list \<Rightarrow> node option) \<Rightarrow> string list \<Rightarrow> string list \<Rightarrow> error + string list" where
  "walk t cur [] = Inr cur"
| "walk t cur (c # cs) =
     (case lookup t cur of
        None \<Rightarrow> Inl FileNotFoundError
      | Some (File _) \<Rightarrow> Inl NotADirectoryError
      | Some Dir \<Rightarrow> walk t (step cur c) cs)"

definition resolve :: "world \<Rightarrow> string \<Rightarrow> error + string list" where
  "resolve w s =
     (if s = [] then Inl FileNotFoundError
      else walk (nodes w) (if is_absolute s then [] else cwd w) (components s))"

text \<open>\<^verbatim>\<open>os.path.exists\<close>: a failed \<^verbatim>\<open>stat\<close> is \<open>False\<close>.\<close>

definition os_path_exists :: "world \<Rightarrow> string \<Rightarrow> bool" where
  "os_path_exists w s =
     (case resolve w s of
        Inl _ \<Rightarrow> False
      | Inr p \<Rightarrow>
          (case lookup (nodes w) p of
             None \<Rightarrow> False
           | Some Dir \<Rightarrow> True
           | Some (File _) \<Rightarrow> \<not> ends_with_sep s))"

text \<open>
  \<^verbatim>\<open>os.makedirs\<close> (with \<^verbatim>\<open>exist_ok=False\<close>): the leaf directory and every missing
  directory on the way to it are created; it raises when the leaf is already there or a
  component on the way is a regular file.
\<close>

fun mkdirs :: "(string list \<Rightarrow> node option) \<Rightarrow> string list \<Rightarrow> string list
    \<Rightarrow> error + (string list \<Rightarrow> node option)" where
  "mkdirs t cur [] = Inl FileExistsError"
| "mkdirs t cur (c # cs) =
     (case lookup t cur of
        None \<Rightarrow> Inl FileNotFoundError
      | Some (File _) \<Rightarrow> Inl NotADirectoryError
      | Some Dir \<Rightarrow>
          (let nxt = step cur c
           in case lookup t nxt of
                None \<Rightarrow> if cs = [] then Inr (t(nxt \<mapsto> Dir)) else mkdirs (t(nxt \<mapsto> Dir)) nxt cs
              | Some _ \<Rightarrow> if cs = [] then Inl FileExistsError else mkdirs t nxt cs))"

definition os_makedirs :: "string \<Rightarrow> world \<Rightarrow> (error + unit) \<times> world" where
  "os_makedirs s w =
     (if s = [] then (Inl FileNotFoundError, w)
      else case mkdirs (nodes w) (if is_absolute s then [] else cwd w) (components s) of
             Inl e \<Rightarrow> (Inl e, w)
           | Inr t \<Rightarrow> (Inr (), w\<lparr>nodes := t\<rparr>))"

text \<open>
  \<^verbatim>\<open>with open(file_path, "w", encoding="utf-8") as f: f.write(content)\<close>: the file is
  created or truncated and then holds \<open>content\<close>.
\<close>

definition open_write :: "string \<Rightarrow> string \<Rightarrow> world \<Rightarrow> (error + unit) \<times> world" where
  "open_write s content w =
     (case resolve w s of
        Inl e \<Rightarrow> (Inl e, w)
      | Inr p \<Rightarrow>
          (case lookup (nodes w) p of
             Some Dir \<Rightarrow> (Inl IsADirectoryError, w)
           | Some (File _) \<Rightarrow>
               if ends_with_sep s then (Inl NotADirectoryError, w)
               else (Inr (), w\<lparr>nodes := (nodes w)(p \<mapsto> File content)\<rparr>)
           | None \<Rightarrow>
               if ends_with_sep s then (Inl IsADirectoryError, w)
               else (Inr (), w\<lparr>nodes := (nodes w)(p \<mapsto> File content)\<rparr>)))"

subsection \<open>Requests for file content\<close>

text \<open>
  \<^verbatim>\<open>ask_chatgpt_for_file_content\<close>: the prompt is built from \<^verbatim>\<open>architecture_data.get\<close>
  outside the \<^verbatim>\<open>try\<close>, so a proposal that is not a dict raises; a failing request is
  caught, reported and gives \<^verbatim>\<open>None\<close>.
\<close>

definition ask_chatgpt_for_file_content ::
    "string \<Rightarrow> string \<Rightarrow> world \<Rightarrow> (error + string option) \<times> world" where
  "ask_chatgpt_for_file_content folder filename w =
     (case architecture_data w of
        JObj kvs \<Rightarrow>
          (case send_request
                  (File_request (dict_get kvs ''software_architecture'' (JStr ''''))
                     (dict_get kvs ''technical_stacks'' (JArr [])) folder filename) w of
             (Some file_content, w1) \<Rightarrow> (Inr (Some file_content), w1)
           | (None, w1) \<Rightarrow> (Inr None, emit Error_file_content w1))
      | _ \<Rightarrow> (Inl AttributeError, w))"

subsection \<open>Creating folders and saving files\<close>

function create_folder_or_file :: "string \<Rightarrow> string \<Rightarrow> world \<Rightarrow> (error + unit) \<times> world"
  and save_file_to_output :: "string \<Rightarrow> string \<Rightarrow> string \<Rightarrow> world \<Rightarrow> (error + unit) \<times> world"
where
  "create_folder_or_file path item w =
     (let full_item = (if item = [] then path else path_join path item)
      in if os_path_exists w full_item then (Inr (), w)
         else if CHR ''.'' \<in> set item then
           (case ask_chatgpt_for_file_content path item w of
              (Inl e, w1) \<Rightarrow> (Inl e, w1)
            | (Inr None, w1) \<Rightarrow> (Inr (), emit (Failed_to_retrieve item) w1)
            | (Inr (Some file_content), w1) \<Rightarrow>
                if file_content \<noteq> [] then save_file_to_output path item file_content w1
                else (Inr (), emit (Failed_to_retrieve item) w1))
         else os_makedirs full_item w)"
| "save_file_to_output folder filename content w =
     (let output_folder = path_join OUTPUT_PATH folder
      in case create_folder_or_file OUTPUT_PATH folder w of
           (Inl e, w1) \<Rightarrow> (Inl e, w1)
         | (Inr _, w1) \<Rightarrow>
             (let file_path = path_join output_folder filename
              in case open_write file_path content w1 of
                   (Inr _, w2) \<Rightarrow> (Inr (), emit (Saved_file file_path) w2)
                 | (Inl _, w2) \<Rightarrow> (Inr (), emit (Error_saving file_path) w2)))"
  by pat_completeness auto
termination
  by (relation "measure (\<lambda>x. case x of
        Inl (path, item, w) \<Rightarrow>
          (if path = OUTPUT_PATH then (if CHR ''.'' \<in> set item then 2 else 0) else 4)
      | Inr (folder, filename, content, w) \<Rightarrow> (if folder = OUTPUT_PATH then 1 else 3))")
    (auto simp: OUTPUT_PATH_def)

declare create_folder_or_file.simps [simp del] save_file_to_output.simps [simp del]

subsection \<open>The Scaffold Walker\<close>

text \<open>
  The loop \<^verbatim>\<open>for f in files: f = f.rstrip("/"); file_list.append((folder, f))\<close>.
  Only a string has \<^verbatim>\<open>rstrip\<close>: any other element raises.
\<close>

fun append_files ::
    "string \<Rightarrow> json list \<Rightarrow> (string \<times> string) list \<Rightarrow> error + (string \<times> string) list" where
  "append_files folder [] file_list = Inr file_list"
| "append_files folder (f # fs) file_list =
     (case f of
        JStr s \<Rightarrow> append_files folder fs (file_list @ [(folder, rstrip ''/'' s)])
      | _ \<Rightarrow> Inl AttributeError)"

text \<open>
  The inner loop over a nested mapping, \<^verbatim>\<open>for folder, comments in files.items()\<close>: each
  key is handed to \<^verbatim>\<open>create_folder_or_file(OUTPUT_PATH, folder)\<close>.
\<close>

fun create_nested :: "(string \<times> json) list \<Rightarrow> world \<Rightarrow> (error + unit) \<times> world" where
  "create_nested [] w = (Inr (), w)"
| "create_nested ((folder, comments) # rest) w =
     (case create_folder_or_file OUTPUT_PATH folder w of
        (Inl e, w1) \<Rightarrow> (Inl e, w1)
      | (Inr _, w1) \<Rightarrow> create_nested rest w1)"

text \<open>The outer loop \<^verbatim>\<open>for folder, files in file_scaffolding.items()\<close>.\<close>

fun walk_mapping ::
    "(string \<times> json) list \<Rightarrow> (string \<times> string) list \<Rightarrow> world
      \<Rightarrow> (error + (string \<times> string) list) \<times> world" where
  "walk_mapping [] file_list w = (Inr file_list, w)"
| "walk_mapping ((folder, files) # rest) file_list w =
     (case create_folder_or_file OUTPUT_PATH folder w of
        (Inl e, w1) \<Rightarrow> (Inl e, w1)
      | (Inr _, w1) \<Rightarrow>
          (case files of
             JArr fs \<Rightarrow>
               (case append_files folder fs file_list of
                  Inl e \<Rightarrow> (Inl e, w1)
                | Inr file_list' \<Rightarrow> walk_mapping rest file_list' w1)
           | JObj inner \<Rightarrow>
               (case create_nested inner w1 of
                  (Inl e, w2) \<Rightarrow> (Inl e, w2)
                | (Inr _, w2) \<Rightarrow> walk_mapping rest file_list w2)
           | _ \<Rightarrow> walk_mapping rest file_list w1))"

text \<open>
  The part of \<^verbatim>\<open>generate_software_files\<close> that branches on the shape of the scaffold
  and builds \<^verbatim>\<open>file_list\<close>, the generation sequence.
\<close>

definition scaffold_walk ::
    "json \<Rightarrow> world \<Rightarrow> (error + (string \<times> string) list) \<times> world" where
  "scaffold_walk file_scaffolding w =
     (case file_scaffolding of
        JObj m \<Rightarrow> walk_mapping m [] w
      | JArr fs \<Rightarrow>
          (case append_files [] fs [] of
             Inl e \<Rightarrow> (Inl e, w)
           | Inr file_list \<Rightarrow> (Inr file_list, w))
      | _ \<Rightarrow> (Inr [], w))"

text \<open>The loop \<^verbatim>\<open>for folder, filename in file_list\<close> that requests and saves each file.\<close>

fun generate_files :: "(string \<times> string) list \<Rightarrow> world \<Rightarrow> (error + unit) \<times> world" where
  "generate_files [] w = (Inr (), w)"
| "generate_files ((folder, filename) # rest) w =
     (case ask_chatgpt_for_file_content folder filename (emit (Requesting filename folder) w) of
        (Inl e, w1) \<Rightarrow> (Inl e, w1)
      | (Inr None, w1) \<Rightarrow> generate_files rest (emit (Failed_to_retrieve filename) w1)
      | (Inr (Some file_content), w1) \<Rightarrow>
          if file_content \<noteq> [] then
            (case save_file_to_output folder filename file_content w1 of
               (Inl e, w2) \<Rightarrow> (Inl e, w2)
             | (Inr _, w2) \<Rightarrow> generate_files rest w2)
          else generate_files rest (emit (Failed_to_retrieve filename) w1))"

definition generate_software_files :: "world \<Rightarrow> (error + unit) \<times> world" where
  "generate_software_files w =
     (case create_folder_or_file OUTPUT_PATH [] w of
        (Inl e, w1) \<Rightarrow> (Inl e, w1)
      | (Inr _, w1) \<Rightarrow>
          (case architecture_data w1 of
             JObj kvs \<Rightarrow>
               (case scaffold_walk (dict_get kvs ''file_scaffolding'' (JObj [])) w1 of
                  (Inl e, w2) \<Rightarrow> (Inl e, w2)
                | (Inr file_list, w2) \<Rightarrow> generate_files file_list w2)
           | _ \<Rightarrow> (Inl AttributeError, w1)))"

subsection \<open>The console steps and \<^verbatim>\<open>main\<close>\<close>

definition get_software_description_from_user :: "world \<Rightarrow> (error + string) \<times> world" where
  "get_software_description_from_user w = input_line Enter_description w"

text \<open>
  \<^verbatim>\<open>ask_chatgpt_for_architecture\<close>: the request and \<^verbatim>\<open>json.loads\<close> are inside one
  \<^verbatim>\<open>try\<close>; either failure is reported and gives \<^verbatim>\<open>None\<close>. The parser is a parameter
  (\<open>None\<close> when the text is not valid JSON).
\<close>

definition ask_chatgpt_for_architecture ::
    "(string \<Rightarrow> json option) \<Rightarrow> string \<Rightarrow> world \<Rightarrow> json \<times> world" where
  "ask_chatgpt_for_architecture json_loads software_description w =
     (case send_request (Architecture_request software_description) w of
        (None, w1) \<Rightarrow> (JNull, emit Error_architecture w1)
      | (Some response_text, w1) \<Rightarrow>
          (case json_loads response_text of
             None \<Rightarrow> (JNull, emit Error_architecture w1)
           | Some data \<Rightarrow> (data, w1)))"

text \<open>\<^verbatim>\<open>display_architecture_proposal\<close>: \<^verbatim>\<open>architecture_data.get\<close> needs a dict.\<close>

definition display_architecture_proposal :: "world \<Rightarrow> (error + unit) \<times> world" where
  "display_architecture_proposal w =
     (case architecture_data w of
        JObj kvs \<Rightarrow> (Inr (), emit (Proposal (JObj kvs)) w)
      | _ \<Rightarrow> (Inl AttributeError, w))"

text \<open>
  \<^verbatim>\<open>get_user_approval\<close>: the \<^verbatim>\<open>while True\<close> loop. It need not return (the console may
  go on giving other answers for ever), so the result is an option: \<open>None\<close> is a loop that
  never ends.
\<close>

partial_function (option) get_user_approval :: "world \<Rightarrow> ((error + bool) \<times> world) option" where
  "get_user_approval w =
     (case input_line Ask_approval w of
        (Inl e, w1) \<Rightarrow> Some (Inl e, w1)
      | (Inr line, w1) \<Rightarrow>
          (let user_input = lower (strip line)
           in if user_input \<in> set [''yes'', ''y''] then Some (Inr True, w1)
              else if user_input \<in> set [''no'', ''n''] then Some (Inr False, w1)
              else get_user_approval (emit Please_type_yes_or_no w1)))"

definition main :: "(string \<Rightarrow> json option) \<Rightarrow> world \<Rightarrow> ((error + unit) \<times> world) option" where
  "main json_loads w =
     (case get_software_description_from_user w of
        (Inl e, w1) \<Rightarrow> Some (Inl e, w1)
      | (Inr software_description, w1) \<Rightarrow>
          (case ask_chatgpt_for_architecture json_loads software_description w1 of
             (data, w2) \<Rightarrow>
               (let w3 = w2\<lparr>architecture_data := data\<rparr>
                in if \<not> truthy data then Some (Inr (), emit Could_not_retrieve w3)
                   else
                     (case display_architecture_proposal w3 of
                        (Inl e, w4) \<Rightarrow> Some (Inl e, w4)
                      | (Inr _, w4) \<Rightarrow>
                          (case get_user_approval w4 of
                             None \<Rightarrow> None
                           | Some (Inl e, w5) \<Rightarrow> Some (Inl e, w5)
                           | Some (Inr approved, w5) \<Rightarrow>
                               if \<not> approved then Some (Inr (), emit Not_approved w5)
                               else
                                 (case generate_software_files (emit Approved w5) of
                                    (Inl e, w6) \<Rightarrow> Some (Inl e, w6)
                                  | (Inr _, w6) \<Rightarrow> Some (Inr (), emit All_done w6)))))))"

subsection \<open>Vocabulary of the statements\<close>

text \<open>
  The approval tokens as the gate reads them: the line with surrounding whitespace
  stripped, then lower-cased. \<open>matches_ci\<close> is the plain case-insensitive comparison,
  without the stripping.
\<close>

definition affirmative :: "string \<Rightarrow> bool" where
  "affirmative l = (lower (strip l) = ''yes'' \<or> lower (strip l) = ''y'')"

definition negative :: "string \<Rightarrow> bool" where
  "negative l = (lower (strip l) = ''no'' \<or> lower (strip l) = ''n'')"

text \<open>
  The world after \<open>k\<close> rounds of the approval loop that each read another answer
  (\<open>reprompted\<close>), and after \<open>k\<close> such rounds and one more line read (\<open>answered\<close>).
\<close>

definition reprompted :: "nat \<Rightarrow> world \<Rightarrow> world" where
  "reprompted k w = w\<lparr>reads := reads w + k,
     stdout := stdout w @ concat (replicate k [Ask_approval, Please_type_yes_or_no])\<rparr>"

definition answered :: "nat \<Rightarrow> world \<Rightarrow> world" where
  "answered k w = w\<lparr>reads := reads w + k + 1,
     stdout := stdout w @ concat (replicate k [Ask_approval, Please_type_yes_or_no]) @ [Ask_approval]\<rparr>"

text \<open>
  A session that starts in an empty working directory (the root of the tree), with the
  given console lines and service.
\<close>

definition console :: "string list \<Rightarrow> nat \<Rightarrow> string option" where
  "console ls n = (if n < length ls then Some (ls ! n) else None)"

definition initial_world :: "string list \<Rightarrow> (nat \<Rightarrow> request \<Rightarrow> string option) \<Rightarrow> world" where
  "initial_world ls svc =
     \<lparr>nodes = Map.empty, cwd = [], stdin = console ls, reads = 0, stdout = [],
      service = svc, requests = [], architecture_data = JNull\<rparr>"

definition matches_ci :: "string \<Rightarrow> string \<Rightarrow> bool" where
  "matches_ci l token = (lower l = lower token)"

text \<open>
  The absolute path a path string names, computed on the string alone (a resolution that
  succeeds ends there).
\<close>

definition abs_path :: "string list \<Rightarrow> string \<Rightarrow> string list" where
  "abs_path cw s = foldl step (if is_absolute s then [] else cw) (components s)"

text \<open>
  \<open>extends t t'\<close>: every directory of \<open>t\<close> is a directory of \<open>t'\<close> and every file of
  \<open>t\<close> is a file of \<open>t'\<close>.
\<close>

definition extends :: "(string list \<Rightarrow> node option) \<Rightarrow> (string list \<Rightarrow> node option) \<Rightarrow> bool" where
  "extends t t' = (\<forall>p. (t p = Some Dir \<longrightarrow> t' p = Some Dir)
                    \<and> (\<forall>c. t p = Some (File c) \<longrightarrow> (\<exists>c'. t' p = Some (File c'))))"

text \<open>
  \<open>rewritten w w' p\<close>: between \<open>w\<close> and \<open>w'\<close> a request for the content of some
  \<^verbatim>\<open>(folder, filename)\<close> was sent, the service answered it with a non-empty text, \<open>p\<close> is
  the path \<^verbatim>\<open>Output/folder/filename\<close> and the file at \<open>p\<close> holds that text in \<open>w'\<close>.
  \<open>evolves w w'\<close> is what every step of a run guarantees: the working directory, the
  service and the proposal are kept, the request log grows, directories stay, and a file
  is either left as it was or rewritten in that sense.
\<close>

definition rewritten :: "world \<Rightarrow> world \<Rightarrow> string list \<Rightarrow> bool" where
  "rewritten w w' p =
     (\<exists>n a s folder filename text.
        length (requests w) \<le> n \<and> n < length (requests w')
        \<and> requests w' ! n = File_request a s folder filename
        \<and> service w n (File_request a s folder filename) = Some text \<and> text \<noteq> []
        \<and> nodes w' p = Some (File text)
        \<and> p = abs_path (cwd w) (path_join (path_join OUTPUT_PATH folder) filename))"

definition evolves :: "world \<Rightarrow> world \<Rightarrow> bool" where
  "evolves w w' =
     (cwd w' = cwd w \<and> service w' = service w \<and> architecture_data w' = architecture_data w
      \<and> (\<exists>ext. requests w' = requests w @ ext)
      \<and> (\<forall>p. nodes w p = Some Dir \<longrightarrow> nodes w' p = Some Dir)
      \<and> (\<forall>p c. nodes w p = Some (File c) \<longrightarrow> nodes w' p = Some (File c) \<or> rewritten w w' p))"

text \<open>
  \<open>full_item k\<close> is the path \<^verbatim>\<open>create_folder_or_file(OUTPUT_PATH, k)\<close> tests and creates;
  \<open>root_dir\<close>: the working directory and \<^verbatim>\<open>Output\<close> are directories; \<open>is_dict\<close>: the
  held proposal is an object; \<open>ready w k\<close>: a name without a dot already exists under
  \<^verbatim>\<open>Output\<close>; \<open>all_keys\<close>: the folder names of a mapping, outer and nested;
  \<open>names\<close>: the strings of a JSON list; \<open>plain\<close>: a path component other than
  \<^verbatim>\<open>.\<close> and \<^verbatim>\<open>..\<close>.
\<close>

definition full_item :: "string \<Rightarrow> string" where
  "full_item k = (if k = [] then OUTPUT_PATH else path_join OUTPUT_PATH k)"

definition root_dir :: "world \<Rightarrow> bool" where
  "root_dir w = (lookup (nodes w) (cwd w) = Some Dir \<and> nodes w (cwd w @ [OUTPUT_PATH]) = Some Dir)"

definition is_dict :: "world \<Rightarrow> bool" where
  "is_dict w = (\<exists>kvs. architecture_data w = JObj kvs)"


fun names :: "json list \<Rightarrow> string list" where
  "names [] = []"
| "names (f # fs) = (case f of JStr s \<Rightarrow> s # names fs | _ \<Rightarrow> names fs)"

definition ready :: "world \<Rightarrow> string \<Rightarrow> bool" where
  "ready w k = (CHR ''.'' \<notin> set k \<longrightarrow> os_path_exists w (full_item k))"

text \<open>
  A proposal with the given scaffold, and a session in which it is held and approved.
\<close>

definition proposal :: "json \<Rightarrow> json" where
  "proposal scaffold =
     JObj [(''software_architecture'', JStr ''layers''), (''technical_stacks'', JArr [JStr ''python'']),
           (''file_scaffolding'', scaffold), (''number_of_files'', JInt 2), (''number_of_prompts'', JInt 3)]"

definition approved_world :: "json \<Rightarrow> (nat \<Rightarrow> request \<Rightarrow> string option) \<Rightarrow> world" where
  "approved_world scaffold svc = (initial_world [] svc)\<lparr>architecture_data := proposal scaffold\<rparr>"


text \<open>
  \<open>listed m\<close>: the pairs the mapping branch of the Walker appends, in order: for each
  key whose value is a list, the key with each file name, trailing slashes removed.
  \<open>names_distinct\<close>: the keys of a mapping are distinct (as those of a Python dict are)
  and no list names the same file twice, once trailing slashes are removed.
\<close>

definition listed :: "(string \<times> json) list \<Rightarrow> (string \<times> string) list" where
  "listed m =
     concat (map (\<lambda>(k, v). case v of JArr fs \<Rightarrow> map (\<lambda>s. (k, rstrip ''/'' s)) (names fs) | _ \<Rightarrow> []) m)"

definition names_distinct :: "json \<Rightarrow> bool" where
  "names_distinct sc =
     (case sc of
        JObj m \<Rightarrow>
          distinct (map fst m)
          \<and> (\<forall>(k, v)\<in>set m. case v of JArr fs \<Rightarrow> distinct (map (rstrip ''/'') (names fs)) | _ \<Rightarrow> True)
      | JArr fs \<Rightarrow> distinct (map (rstrip ''/'') (names fs))
      | _ \<Rightarrow> True)"

text \<open>
  \<open>file_request_of w folder filename\<close> is the request
  \<^verbatim>\<open>ask_chatgpt_for_file_content(folder, filename)\<close> sends for the proposal held in
  \<open>w\<close>; \<open>target folder filename\<close> is the path \<^verbatim>\<open>save_file_to_output\<close> opens;
  \<open>writable w s\<close>: \<^verbatim>\<open>open(s, "w")\<close> succeeds in \<open>w\<close>, that is, the parent of \<open>s\<close>
  is a directory and \<open>s\<close> itself is not.
\<close>

definition file_request_of :: "world \<Rightarrow> string \<Rightarrow> string \<Rightarrow> request" where
  "file_request_of w folder filename =
     (case architecture_data w of
        JObj kvs \<Rightarrow>
          File_request (dict_get kvs ''software_architecture'' (JStr []))
            (dict_get kvs ''technical_stacks'' (JArr [])) folder filename
      | _ \<Rightarrow> File_request JNull JNull folder filename)"

definition target :: "string \<Rightarrow> string \<Rightarrow> string" where
  "target folder filename = path_join (path_join OUTPUT_PATH folder) filename"

definition writable :: "world \<Rightarrow> string \<Rightarrow> bool" where
  "writable w s =
     (\<exists>p. resolve w s = Inr p \<and> lookup (nodes w) p \<noteq> Some Dir \<and> \<not> ends_with_sep s)"

section \<open>Properties\<close>

subsection \<open>The approval gate\<close>

lemma yes_not_no: "affirmative l \<Longrightarrow> \<not> negative l"
  by (auto simp: affirmative_def negative_def)

lemma gate_step_other:
  assumes "stdin w (reads w) = Some l" "\<not> affirmative l" "\<not> negative l"
  shows "get_user_approval w = get_user_approval (reprompted (Suc 0) w)"
  using assms
  by (subst get_user_approval.simps)
     (simp add: input_line_def emit_def affirmative_def negative_def reprompted_def)

lemma gate_step_match:
  assumes "stdin w (reads w) = Some l" "affirmative l \<or> negative l"
  shows "get_user_approval w = Some (Inr (affirmative l), answered 0 w)"
  using assms yes_not_no[of l]
  by (subst get_user_approval.simps)
     (auto simp add: input_line_def emit_def affirmative_def negative_def reprompted_def answered_def)

lemma gate_step_eof:
  assumes "stdin w (reads w) = None"
  shows "get_user_approval w = Some (Inl EOFError, emit Ask_approval w)"
  using assms
  by (subst get_user_approval.simps) (simp add: input_line_def emit_def)

lemma reprompted_Suc: "reprompted k (reprompted (Suc 0) w) = reprompted (Suc k) w"
  by (simp add: reprompted_def)

lemma answered_Suc: "answered k (reprompted (Suc 0) w) = answered (Suc k) w"
  by (simp add: reprompted_def answered_def)

lemma reprompted_fields [simp]:
  "stdin (reprompted k w) = stdin w" "reads (reprompted k w) = reads w + k"
  "nodes (reprompted k w) = nodes w"
  by (simp_all add: reprompted_def)

lemma gate_returns:
  assumes "\<forall>i<k. \<exists>m. stdin w (reads w + i) = Some m \<and> \<not> affirmative m \<and> \<not> negative m"
    and "stdin w (reads w + k) = Some l" and "affirmative l \<or> negative l"
  shows "get_user_approval w = Some (Inr (affirmative l), answered k w)"
  using assms
proof (induction k arbitrary: w)
  case 0
  then show ?case using gate_step_match[of w l] by simp
next
  case (Suc k)
  from Suc.prems(1) obtain m where m: "stdin w (reads w) = Some m" "\<not> affirmative m" "\<not> negative m"
    by force
  have "get_user_approval w = get_user_approval (reprompted (Suc 0) w)"
    using m by (rule gate_step_other)
  also have "\<dots> = Some (Inr (affirmative l), answered k (reprompted (Suc 0) w))"
  proof (rule Suc.IH)
    show "\<forall>i<k. \<exists>m. stdin (reprompted (Suc 0) w) (reads (reprompted (Suc 0) w) + i) = Some m \<and> \<not> affirmative m \<and> \<not> negative m"
      using Suc.prems(1) by (auto simp: less_Suc_eq_0_disj)
    show "stdin (reprompted (Suc 0) w) (reads (reprompted (Suc 0) w) + k) = Some l"
      using Suc.prems(2) by simp
  qed (rule Suc.prems(3))
  finally show ?case by (simp add: answered_Suc)
qed

lemma gate_only_on_match_aux:
  assumes "get_user_approval w = Some r"
  shows "\<forall>b w'. r = (Inr b, w') \<longrightarrow>
          (\<exists>k l. (\<forall>i<k. \<exists>m. stdin w (reads w + i) = Some m \<and> \<not> affirmative m \<and> \<not> negative m)
           \<and> stdin w (reads w + k) = Some l \<and> (if b then affirmative l else negative l)
           \<and> w' = answered k w)"
proof (rule get_user_approval.raw_induct[OF _ assms])
  fix f w r
  assume 1: "\<And>w r. f w = Some r \<Longrightarrow> \<forall>b w'. r = (Inr b, w') \<longrightarrow>
          (\<exists>k l. (\<forall>i<k. \<exists>m. stdin w (reads w + i) = Some m \<and> \<not> affirmative m \<and> \<not> negative m)
           \<and> stdin w (reads w + k) = Some l \<and> (if b then affirmative l else negative l)
           \<and> w' = answered k w)"
    "(case input_line Ask_approval w of
        (Inl e, w1) \<Rightarrow> Some (Inl e, w1)
      | (Inr line, w1) \<Rightarrow>
          (let user_input = lower (strip line)
           in if user_input \<in> set [''yes'', ''y''] then Some (Inr True, w1)
              else if user_input \<in> set [''no'', ''n''] then Some (Inr False, w1)
              else f (emit Please_type_yes_or_no w1))) = Some r"
  show "\<forall>b w'. r = (Inr b, w') \<longrightarrow>
          (\<exists>k l. (\<forall>i<k. \<exists>m. stdin w (reads w + i) = Some m \<and> \<not> affirmative m \<and> \<not> negative m)
           \<and> stdin w (reads w + k) = Some l \<and> (if b then affirmative l else negative l)
           \<and> w' = answered k w)"
  proof (intro allI impI)
    fix b w' assume r: "r = (Inr b, w')"
    show "\<exists>k l. (\<forall>i<k. \<exists>m. stdin w (reads w + i) = Some m \<and> \<not> affirmative m \<and> \<not> negative m)
           \<and> stdin w (reads w + k) = Some l \<and> (if b then affirmative l else negative l)
           \<and> w' = answered k w"
    proof (cases "stdin w (reads w)")
      case None
      with 1(2) r show ?thesis by (simp add: input_line_def emit_def)
    next
      case (Some l)
      show ?thesis
      proof (cases "affirmative l \<or> negative l")
        case True
        with 1(2) r Some yes_not_no[of l]
        have "(if b then affirmative l else negative l) \<and> w' = answered 0 w"
          by (auto simp add: input_line_def emit_def affirmative_def negative_def answered_def
                split: if_splits)
        with Some show ?thesis by (intro exI[of _ 0] exI[of _ l]) simp
      next
        case False
        with 1(2) Some have "f (reprompted (Suc 0) w) = Some r"
          by (simp add: input_line_def emit_def affirmative_def negative_def reprompted_def)
        from 1(1)[OF this] r obtain k l' where
          k: "\<forall>i<k. \<exists>m. stdin w (Suc (reads w + i)) = Some m \<and> \<not> affirmative m \<and> \<not> negative m"
             "stdin w (Suc (reads w + k)) = Some l'" "if b then affirmative l' else negative l'"
             "w' = answered k (reprompted (Suc 0) w)"
          by auto
        have "\<forall>i<Suc k. \<exists>m. stdin w (reads w + i) = Some m \<and> \<not> affirmative m \<and> \<not> negative m"
        proof (intro allI impI)
          fix i assume "i < Suc k"
          show "\<exists>m. stdin w (reads w + i) = Some m \<and> \<not> affirmative m \<and> \<not> negative m"
          proof (cases i)
            case 0 with Some False show ?thesis by simp
          next
            case (Suc j) with \<open>i < Suc k\<close> k(1) show ?thesis by auto
          qed
        qed
        with k(2,3,4) show ?thesis
          by (intro exI[of _ "Suc k"] exI[of _ l']) (simp add: answered_Suc)
      qed
    qed
  qed
qed

lemma gate_stops_aux:
  assumes "get_user_approval w = Some r"
  shows "\<exists>k. (\<forall>i<k. \<exists>m. stdin w (reads w + i) = Some m \<and> \<not> affirmative m \<and> \<not> negative m)
           \<and> (case stdin w (reads w + k) of None \<Rightarrow> True | Some l \<Rightarrow> affirmative l \<or> negative l)"
proof (rule get_user_approval.raw_induct[OF _ assms])
  fix f w r
  assume 1: "\<And>w r. f w = Some r \<Longrightarrow>
          \<exists>k. (\<forall>i<k. \<exists>m. stdin w (reads w + i) = Some m \<and> \<not> affirmative m \<and> \<not> negative m)
           \<and> (case stdin w (reads w + k) of None \<Rightarrow> True | Some l \<Rightarrow> affirmative l \<or> negative l)"
    "(case input_line Ask_approval w of
        (Inl e, w1) \<Rightarrow> Some (Inl e, w1)
      | (Inr line, w1) \<Rightarrow>
          (let user_input = lower (strip line)
           in if user_input \<in> set [''yes'', ''y''] then Some (Inr True, w1)
              else if user_input \<in> set [''no'', ''n''] then Some (Inr False, w1)
              else f (emit Please_type_yes_or_no w1))) = Some r"
  show "\<exists>k. (\<forall>i<k. \<exists>m. stdin w (reads w + i) = Some m \<and> \<not> affirmative m \<and> \<not> negative m)
           \<and> (case stdin w (reads w + k) of None \<Rightarrow> True | Some l \<Rightarrow> affirmative l \<or> negative l)"
  proof (cases "stdin w (reads w)")
    case None
    then show ?thesis by (intro exI[of _ 0]) simp
  next
    case (Some l)
    show ?thesis
    proof (cases "affirmative l \<or> negative l")
      case True
      with Some show ?thesis by (intro exI[of _ 0]) simp
    next
      case False
      with 1(2) Some have "f (reprompted (Suc 0) w) = Some r"
        by (simp add: input_line_def emit_def affirmative_def negative_def reprompted_def)
      from 1(1)[OF this] obtain k where
        k: "\<forall>i<k. \<exists>m. stdin w (Suc (reads w + i)) = Some m \<and> \<not> affirmative m \<and> \<not> negative m"
           "case stdin w (Suc (reads w + k)) of None \<Rightarrow> True | Some l \<Rightarrow> affirmative l \<or> negative l"
        by auto
      have "\<forall>i<Suc k. \<exists>m. stdin w (reads w + i) = Some m \<and> \<not> affirmative m \<and> \<not> negative m"
      proof (intro allI impI)
        fix i assume "i < Suc k"
        show "\<exists>m. stdin w (reads w + i) = Some m \<and> \<not> affirmative m \<and> \<not> negative m"
        proof (cases i)
          case 0 with Some False show ?thesis by simp
        next
          case (Suc j) with \<open>i < Suc k\<close> k(1) show ?thesis by auto
        qed
      qed
      with k(2) show ?thesis by (intro exI[of _ "Suc k"]) simp
    qed
  qed
qed

lemma gate_never_returns:
  assumes "\<forall>i. \<exists>m. stdin w (reads w + i) = Some m \<and> \<not> affirmative m \<and> \<not> negative m"
  shows "get_user_approval w = None"
proof (cases "get_user_approval w")
  case None then show ?thesis .
next
  case (Some r)
  from gate_stops_aux[OF this] obtain k where
    "case stdin w (reads w + k) of None \<Rightarrow> True | Some l \<Rightarrow> affirmative l \<or> negative l" by blast
  with assms[rule_format, of k] show ?thesis by auto
qed

text \<open>
  C4 (amended). The gate returns a decision exactly when, after some number \<open>k\<close> of other
  answers, a line is read that, stripped of surrounding whitespace and lower-cased, is
  \<^verbatim>\<open>yes\<close>/\<^verbatim>\<open>y\<close> (the decision is \<open>True\<close>) or \<^verbatim>\<open>no\<close>/\<^verbatim>\<open>n\<close> (\<open>False\<close>). Each
  of the \<open>k\<close> other answers is followed by the reminder and a new prompt and changes
  nothing else; when every line is such an answer the gate never returns.
\<close>

theorem approval_gate_decision:
  "(get_user_approval w = Some (Inr b, w') \<longleftrightarrow>
     (\<exists>k l. (\<forall>i<k. \<exists>m. stdin w (reads w + i) = Some m \<and> \<not> affirmative m \<and> \<not> negative m)
        \<and> stdin w (reads w + k) = Some l \<and> (if b then affirmative l else negative l)
        \<and> w' = answered k w))
   \<and> ((\<forall>i. \<exists>m. stdin w (reads w + i) = Some m \<and> \<not> affirmative m \<and> \<not> negative m)
        \<longrightarrow> get_user_approval w = None)"
proof (intro conjI iffI impI)
  assume "get_user_approval w = Some (Inr b, w')"
  from gate_only_on_match_aux[OF this] show
    "\<exists>k l. (\<forall>i<k. \<exists>m. stdin w (reads w + i) = Some m \<and> \<not> affirmative m \<and> \<not> negative m)
        \<and> stdin w (reads w + k) = Some l \<and> (if b then affirmative l else negative l)
        \<and> w' = answered k w" by blast
next
  assume "\<exists>k l. (\<forall>i<k. \<exists>m. stdin w (reads w + i) = Some m \<and> \<not> affirmative m \<and> \<not> negative m)
        \<and> stdin w (reads w + k) = Some l \<and> (if b then affirmative l else negative l)
        \<and> w' = answered k w"
  then obtain k l where
    k: "\<forall>i<k. \<exists>m. stdin w (reads w + i) = Some m \<and> \<not> affirmative m \<and> \<not> negative m"
       "stdin w (reads w + k) = Some l" "if b then affirmative l else negative l"
       "w' = answered k w" by blast
  from k(3) have m: "affirmative l \<or> negative l" "affirmative l = b"
    using yes_not_no[of l] by (auto split: if_splits)
  from gate_returns[OF k(1,2) m(1)] m(2) k(4)
  show "get_user_approval w = Some (Inr b, w')" by simp
next
  assume "\<forall>i. \<exists>m. stdin w (reads w + i) = Some m \<and> \<not> affirmative m \<and> \<not> negative m"
  then show "get_user_approval w = None" by (rule gate_never_returns)
qed

lemma tokens_examples:
  "affirmative '' YES ''" "\<not> affirmative ''maybe''" "\<not> negative ''maybe''"
  "\<not> matches_ci '' yes'' ''yes''" "\<not> matches_ci '' yes'' ''y''" "affirmative '' yes''"
  "negative ''No''"
  by code_simp+

text \<open>The gate on the console lines \<^verbatim>\<open>maybe\<close>, \<^verbatim>\<open> YES \<close>: approved at the second line.\<close>

theorem approval_gate_decision_witness:
  "get_user_approval (initial_world [''maybe'', '' YES ''] (\<lambda>n r. None))
     = Some (Inr True, answered 1 (initial_world [''maybe'', '' YES ''] (\<lambda>n r. None)))"
proof -
  let ?w = "initial_world [''maybe'', '' YES ''] (\<lambda>n r. None)"
  have "\<exists>k l. (\<forall>i<k. \<exists>m. stdin ?w (reads ?w + i) = Some m \<and> \<not> affirmative m \<and> \<not> negative m)
        \<and> stdin ?w (reads ?w + k) = Some l \<and> (if True then affirmative l else negative l)
        \<and> answered 1 ?w = answered k ?w"
    by (intro exI[of _ 1] exI[of _ "'' YES ''"])
       (simp add: initial_world_def console_def tokens_examples)
  with approval_gate_decision[of ?w True "answered 1 ?w"] show ?thesis by blast
qed

text \<open>
  C4 as stated fails: the line \<^verbatim>\<open> yes\<close> (with a leading blank) is no case-insensitive
  match of \<^verbatim>\<open>yes\<close> or \<^verbatim>\<open>y\<close>, and the gate returns \<open>True\<close> on it.
\<close>

theorem approval_gate_strips_counterexample:
  "map_option fst (get_user_approval (initial_world ['' yes''] (\<lambda>n r. None))) = Some (Inr True)
   \<and> \<not> matches_ci '' yes'' ''yes'' \<and> \<not> matches_ci '' yes'' ''y''"
  using gate_step_match[of "initial_world ['' yes''] (\<lambda>n r. None)" "'' yes''"]
  by (simp add: initial_world_def console_def tokens_examples)

subsection \<open>Early exits of \<^verbatim>\<open>main\<close>\<close>

lemma answered_fields [simp]:
  "nodes (answered k w) = nodes w" "requests (answered k w) = requests w"
  "reads (answered k w) = reads w + k + 1"
  by (simp_all add: answered_def)

text \<open>
  C5. When the architecture request fails, or its response is not valid JSON, \<open>main\<close>
  returns after printing the two messages (the error and \<^verbatim>\<open>Could not retrieve ...\<close>), has
  read only the description line, and leaves the file tree as it was.
\<close>

theorem architecture_failure_aborts:
  assumes "stdin w (reads w) = Some d"
    and "service w (length (requests w)) (Architecture_request d) = None
         \<or> (\<exists>t. service w (length (requests w)) (Architecture_request d) = Some t \<and> json_loads t = None)"
  shows "\<exists>w'. main json_loads w = Some (Inr (), w') \<and> nodes w' = nodes w
           \<and> stdout w' = stdout w @ [Enter_description, Error_architecture, Could_not_retrieve]
           \<and> reads w' = reads w + 1"
  using assms
  by (auto simp: main_def get_software_description_from_user_def input_line_def emit_def
        ask_chatgpt_for_architecture_def send_request_def)

theorem architecture_failure_aborts_witness:
  "\<exists>w'. main (\<lambda>t. None) (initial_world [''a to-do list''] (\<lambda>n r. if n = 0 then None else Some ''x''))
            = Some (Inr (), w')
     \<and> nodes w' = Map.empty
     \<and> stdout w' = [Enter_description, Error_architecture, Could_not_retrieve]
     \<and> reads w' = 1"
  using architecture_failure_aborts[of "initial_world [''a to-do list''] (\<lambda>n r. if n = 0 then None else Some ''x'')"
      "''a to-do list''" "\<lambda>t. None"]
  by (simp add: initial_world_def console_def)

text \<open>
  C10. When the response parses to a value that Python takes as false (the empty object,
  \<^verbatim>\<open>null\<close>, zero, the empty string, the empty list, ...), \<open>main\<close> prints
  \<^verbatim>\<open>Could not retrieve ...\<close> and returns: no error message was printed, no approval
  line is read and the file tree is as it was.
\<close>

theorem falsy_architecture_aborts:
  assumes "stdin w (reads w) = Some d"
    and "service w (length (requests w)) (Architecture_request d) = Some t"
    and "json_loads t = Some data"
    and "\<not> truthy data"
  shows "(\<exists>w'. main json_loads w = Some (Inr (), w') \<and> nodes w' = nodes w
           \<and> stdout w' = stdout w @ [Enter_description, Could_not_retrieve]
           \<and> reads w' = reads w + 1)
         \<and> \<not> truthy (JObj []) \<and> \<not> truthy JNull \<and> \<not> truthy (JInt 0) \<and> \<not> truthy (JStr [])
         \<and> \<not> truthy (JArr [])"
  using assms
  by (auto simp: main_def get_software_description_from_user_def input_line_def emit_def
        ask_chatgpt_for_architecture_def send_request_def)

theorem falsy_architecture_aborts_witness:
  "\<exists>w'. main (\<lambda>t. if t = ''{}'' then Some (JObj []) else None)
            (initial_world [''a to-do list'', ''yes''] (\<lambda>n r. Some ''{}'')) = Some (Inr (), w')
     \<and> nodes w' = Map.empty
     \<and> stdout w' = [Enter_description, Could_not_retrieve] \<and> reads w' = 1"
  using falsy_architecture_aborts[of "initial_world [''a to-do list'', ''yes''] (\<lambda>n r. Some ''{}'')"
      "''a to-do list''" "''{}''" "\<lambda>t. if t = ''{}'' then Some (JObj []) else None" "JObj []"]
  by (simp add: initial_world_def console_def)

text \<open>
  C7. When the proposal is a non-empty object and the first decisive answer at the gate is
  negative, \<open>main\<close> returns normally; the file tree is unchanged, the only request sent
  is the architecture request, and the last line printed is \<^verbatim>\<open>Architecture not approved\<close>.
\<close>

theorem disapproval_writes_nothing:
  assumes "stdin w (reads w) = Some d"
    and "service w (length (requests w)) (Architecture_request d) = Some t"
    and "json_loads t = Some (JObj kvs)" and "kvs \<noteq> []"
    and "\<forall>i<k. \<exists>m. stdin w (reads w + 1 + i) = Some m \<and> \<not> affirmative m \<and> \<not> negative m"
    and "stdin w (reads w + 1 + k) = Some l" and "negative l"
  shows "\<exists>w'. main json_loads w = Some (Inr (), w') \<and> nodes w' = nodes w
           \<and> requests w' = requests w @ [Architecture_request d]
           \<and> last (stdout w') = Not_approved"
proof -
  define w4 where "w4 = w\<lparr>reads := reads w + 1,
     requests := requests w @ [Architecture_request d], architecture_data := JObj kvs,
     stdout := stdout w @ [Enter_description, Proposal (JObj kvs)]\<rparr>"
  have not_yes: "\<not> affirmative l" using assms(7) yes_not_no[of l] by blast
  have "get_user_approval w4 = Some (Inr (affirmative l), answered k w4)"
    using assms(5,6,7) by (intro gate_returns) (simp_all add: w4_def)
  with not_yes have gate: "get_user_approval w4 = Some (Inr False, answered k w4)" by simp
  have "main json_loads w = Some (Inr (), emit Not_approved (answered k w4))"
    using assms(1-4) gate
    by (simp add: main_def get_software_description_from_user_def input_line_def emit_def
        ask_chatgpt_for_architecture_def send_request_def display_architecture_proposal_def
        w4_def)
  then show ?thesis by (intro exI[of _ "emit Not_approved (answered k w4)"]) (simp add: emit_def w4_def)
qed

theorem disapproval_writes_nothing_witness:
  "\<exists>w'. main (\<lambda>t. Some (JObj [(''file_scaffolding'', JArr [JStr ''readme.md''])]))
            (initial_world [''a to-do list'', ''maybe'', ''No''] (\<lambda>n r. Some ''x'')) = Some (Inr (), w')
     \<and> nodes w' = Map.empty \<and> requests w' = [Architecture_request ''a to-do list'']
     \<and> last (stdout w') = Not_approved"
  using disapproval_writes_nothing[of "initial_world [''a to-do list'', ''maybe'', ''No''] (\<lambda>n r. Some ''x'')"
      "''a to-do list''" "''x''" "\<lambda>t. Some (JObj [(''file_scaffolding'', JArr [JStr ''readme.md''])])"
      "[(''file_scaffolding'', JArr [JStr ''readme.md''])]" 1 "''No''"]
  by (simp add: initial_world_def console_def tokens_examples)

subsection \<open>Path strings\<close>

lemma split_on_not_Nil [simp]: "split_on sep s \<noteq> []"
  by (induction s) (auto split: list.splits)

lemma split_on_append: "split_on sep (xs @ sep # ys) = split_on sep xs @ split_on sep ys"
proof (induction xs)
  case Nil
  then show ?case by simp
next
  case (Cons x xs)
  obtain h t where ht: "split_on sep xs = h # t"
    by (cases "split_on sep xs") auto
  with Cons show ?case by simp
qed


lemma components_Nil [simp]: "components [] = []"
  by (simp add: components_def)

lemma components_append: "components (xs @ CHR ''/'' # ys) = components xs @ components ys"
  by (simp add: components_def split_on_append)


lemma components_path_join:
  "components (path_join a b) = (if is_absolute b then components b else components a @ components b)"
proof (cases "is_absolute b")
  case True
  then show ?thesis by (simp add: path_join_def is_absolute_def)
next
  case False
  then have nb: "\<not> (case b of [] \<Rightarrow> False | c # _ \<Rightarrow> c = CHR ''/'')"
    by (simp add: is_absolute_def)
  show ?thesis
  proof (cases "a = []")
    case True
    with False nb show ?thesis by (simp add: path_join_def)
  next
    case a: False
    show ?thesis
    proof (cases "last a = CHR ''/''")
      case True
      with a obtain a' where a': "a = a' @ [CHR ''/'']" by (metis append_butlast_last_id)
      have "components (a' @ CHR ''/'' # []) = components a'"
        by (simp only: components_append components_Nil append_Nil2)
      then have "components a = components a'" by (simp add: a')
      moreover have "components (a @ b) = components a' @ components b"
        by (simp add: a' components_append)
      ultimately show ?thesis using nb \<open>\<not> is_absolute b\<close> a True
        by (simp add: path_join_def)
    next
      case False
      with a nb \<open>\<not> is_absolute b\<close> show ?thesis
        by (simp add: path_join_def components_append)
    qed
  qed
qed

lemma is_absolute_path_join: "is_absolute (path_join a b) = (is_absolute a \<or> is_absolute b)"
  by (cases a; cases b) (auto simp: path_join_def is_absolute_def)

lemma path_join_not_Nil: "a \<noteq> [] \<Longrightarrow> path_join a b \<noteq> []"
  by (auto simp: path_join_def split: list.splits)


lemma abs_path_join:
  "abs_path cw (path_join a b) = (if is_absolute b then abs_path cw b else foldl step (abs_path cw a) (components b))"
  by (auto simp: abs_path_def components_path_join is_absolute_path_join)

subsection \<open>The file tree\<close>

lemma extends_refl [simp]: "extends t t"
  by (simp add: extends_def)

lemma extends_trans: "extends t t' \<Longrightarrow> extends t' t'' \<Longrightarrow> extends t t''"
  unfolding extends_def by (metis)

lemma extends_lookup_Dir: "extends t t' \<Longrightarrow> lookup t p = Some Dir \<Longrightarrow> lookup t' p = Some Dir"
  by (auto simp: extends_def lookup_def split: if_splits)

lemma extends_lookup_File: "extends t t' \<Longrightarrow> lookup t p = Some (File c) \<Longrightarrow> \<exists>c'. lookup t' p = Some (File c')"
  by (auto simp: extends_def lookup_def split: if_splits)

lemma walk_extends: "extends t t' \<Longrightarrow> walk t cur cs = Inr p \<Longrightarrow> walk t' cur cs = Inr p"
proof (induction cs arbitrary: cur)
  case Nil
  then show ?case by simp
next
  case (Cons c cs)
  from Cons.prems(2) have "lookup t cur = Some Dir"
    by (auto split: option.splits node.splits)
  with Cons show ?case by (simp add: extends_lookup_Dir)
qed

lemma walk_foldl: "walk t cur cs = Inr p \<Longrightarrow> p = foldl step cur cs"
  by (induction cs arbitrary: cur) (auto split: option.splits node.splits)

lemma resolve_abs_path: "resolve w s = Inr p \<Longrightarrow> p = abs_path (cwd w) s"
  by (auto simp: resolve_def abs_path_def dest: walk_foldl split: if_splits)

lemma exists_extends:
  assumes "extends (nodes w) (nodes w')" "cwd w' = cwd w" "os_path_exists w s"
  shows "os_path_exists w' s"
proof -
  from assms(3) obtain p where p: "resolve w s = Inr p" "lookup (nodes w) p \<noteq> None"
    by (auto simp: os_path_exists_def split: sum.splits option.splits)
  then have r: "resolve w' s = Inr p"
    using assms(1,2) by (auto simp: resolve_def dest: walk_extends split: if_splits)
  show ?thesis
  proof (cases "lookup (nodes w) p")
    case None with p show ?thesis by simp
  next
    case (Some n)
    show ?thesis
    proof (cases n)
      case Dir
      with Some assms(1) have "lookup (nodes w') p = Some Dir" by (simp add: extends_lookup_Dir)
      with r show ?thesis by (simp add: os_path_exists_def)
    next
      case (File c)
      with Some assms(1) obtain c' where "lookup (nodes w') p = Some (File c')"
        using extends_lookup_File by blast
      with r assms(3) p Some File show ?thesis by (simp add: os_path_exists_def)
    qed
  qed
qed

lemma mkdirs_keeps: "mkdirs t cur cs = Inr t' \<Longrightarrow> t p \<noteq> None \<Longrightarrow> t' p = t p"
proof (induction cs arbitrary: t cur)
  case Nil
  then show ?case by simp
next
  case (Cons c cs)
  from Cons.prems(1) have d: "lookup t cur = Some Dir"
    by (auto split: option.splits node.splits)
  show ?case
  proof (cases "lookup t (step cur c)")
    case None
    then have ne: "step cur c \<noteq> p" using Cons.prems(2) by (auto simp: lookup_def split: if_splits)
    show ?thesis
    proof (cases "cs = []")
      case True
      with Cons.prems(1) d None ne show ?thesis by (auto simp: Let_def)
    next
      case False
      with Cons.prems(1) d None have "mkdirs (t(step cur c \<mapsto> Dir)) (step cur c) cs = Inr t'"
        by (simp add: Let_def)
      from Cons.IH[OF this] ne Cons.prems(2) show ?thesis by simp
    qed
  next
    case (Some n)
    with Cons.prems(1) d have "cs \<noteq> []" "mkdirs t (step cur c) cs = Inr t'"
      by (auto simp: Let_def split: if_splits)
    from Cons.IH[OF this(2) Cons.prems(2)] show ?thesis .
  qed
qed

lemma mkdirs_new_Dir: "mkdirs t cur cs = Inr t' \<Longrightarrow> t' p = t p \<or> (t p = None \<and> t' p = Some Dir)"
proof (induction cs arbitrary: t cur)
  case Nil
  then show ?case by simp
next
  case (Cons c cs)
  from Cons.prems(1) have d: "lookup t cur = Some Dir"
    by (auto split: option.splits node.splits)
  show ?case
  proof (cases "lookup t (step cur c)")
    case None
    then have n0: "step cur c \<noteq> []" "t (step cur c) = None" by (auto simp: lookup_def split: if_splits)
    show ?thesis
    proof (cases "cs = []")
      case True
      with Cons.prems(1) d None n0 show ?thesis by (auto simp: Let_def split: if_splits)
    next
      case False
      with Cons.prems(1) d None have "mkdirs (t(step cur c \<mapsto> Dir)) (step cur c) cs = Inr t'"
        by (simp add: Let_def)
      from Cons.IH[OF this] n0 show ?thesis by (auto split: if_splits)
    qed
  next
    case (Some n)
    with Cons.prems(1) d have "mkdirs t (step cur c) cs = Inr t'"
      by (auto simp: Let_def split: if_splits)
    from Cons.IH[OF this] show ?thesis .
  qed
qed




subsection \<open>What a run may change\<close>

lemma evolves_refl [simp]: "evolves w w"
  by (simp add: evolves_def)


lemma rewritten_mono:
  assumes "rewritten w w' p" "requests w'' = requests w' @ ext" "nodes w'' p = nodes w' p"
  shows "rewritten w w'' p"
  using assms unfolding rewritten_def
  by (metis (no_types, lifting) length_append nth_append trans_less_add1)

lemma rewritten_later:
  assumes "rewritten w' w'' p" "requests w' = requests w @ ext" "service w' = service w" "cwd w' = cwd w"
  shows "rewritten w w'' p"
  using assms unfolding rewritten_def
  by (metis (no_types, lifting) le_add1 le_trans length_append)

lemma evolves_trans:
  assumes "evolves w w'" "evolves w' w''"
  shows "evolves w w''"
proof -
  from assms obtain e1 e2 where e: "requests w' = requests w @ e1" "requests w'' = requests w' @ e2"
    by (auto simp: evolves_def)
  have f: "cwd w' = cwd w" "service w' = service w" "cwd w'' = cwd w'" "service w'' = service w'"
    "architecture_data w' = architecture_data w" "architecture_data w'' = architecture_data w'"
    using assms by (auto simp: evolves_def)
  have d: "\<And>p. nodes w p = Some Dir \<Longrightarrow> nodes w'' p = Some Dir"
    using assms by (auto simp: evolves_def)
  have "nodes w'' p = Some (File c) \<or> rewritten w w'' p" if "nodes w p = Some (File c)" for p c
  proof -
    from that assms(1) consider "nodes w' p = Some (File c)" | "rewritten w w' p"
      by (auto simp: evolves_def)
    then show ?thesis
    proof cases
      case 1
      with assms(2) have "nodes w'' p = Some (File c) \<or> rewritten w' w'' p"
        by (auto simp: evolves_def)
      then show ?thesis using rewritten_later[OF _ e(1) f(2) f(1)] by blast
    next
      case 2
      then obtain t where t: "nodes w' p = Some (File t)" by (auto simp: rewritten_def)
      with assms(2) have "nodes w'' p = Some (File t) \<or> rewritten w' w'' p"
        by (auto simp: evolves_def)
      then show ?thesis
        using rewritten_later[OF _ e(1) f(2) f(1)] rewritten_mono[OF 2 e(2)] t by auto
    qed
  qed
  with d e f show ?thesis by (auto simp: evolves_def)
qed

lemma evolves_emit: "evolves w w' \<Longrightarrow> evolves w (emit e w')"
  by (auto simp: evolves_def emit_def rewritten_def)

lemma evolves_emit_left: "evolves (emit e w) w' \<Longrightarrow> evolves w w'"
  by (auto simp: evolves_def emit_def rewritten_def)

lemma evolves_makedirs: "os_makedirs s w = (r, w') \<Longrightarrow> evolves w w'"
proof -
  assume a: "os_makedirs s w = (r, w')"
  show ?thesis
  proof (cases "s = [] \<or> (\<exists>e. mkdirs (nodes w) (if is_absolute s then [] else cwd w) (components s) = Inl e)")
    case True
    with a have "w' = w" by (auto simp: os_makedirs_def split: if_splits)
    then show ?thesis by simp
  next
    case False
    then obtain t where t: "mkdirs (nodes w) (if is_absolute s then [] else cwd w) (components s) = Inr t"
      by (metis sum.exhaust)
    with a False have w': "w' = w\<lparr>nodes := t\<rparr>" by (auto simp: os_makedirs_def)
    from mkdirs_new_Dir[OF t] have "\<And>p. nodes w p \<noteq> None \<Longrightarrow> t p = nodes w p" by (metis)
    then show ?thesis by (auto simp: evolves_def w')
  qed
qed

lemma ask_effect:
  assumes "ask_chatgpt_for_file_content folder filename w = (r, w')"
  shows "nodes w' = nodes w \<and> cwd w' = cwd w \<and> service w' = service w
         \<and> architecture_data w' = architecture_data w
         \<and> (case r of
               Inl e \<Rightarrow> requests w' = requests w
             | Inr x \<Rightarrow> (\<exists>a s. requests w' = requests w @ [File_request a s folder filename]
                          \<and> x = service w (length (requests w)) (File_request a s folder filename)))"
  using assms
  by (auto simp: ask_chatgpt_for_file_content_def send_request_def emit_def
        split: json.splits option.splits)

lemma evolves_ask:
  "ask_chatgpt_for_file_content folder filename w = (r, w') \<Longrightarrow> evolves w w'"
  using ask_effect[of folder filename w r w']
  by (cases r) (auto simp: evolves_def)

lemma evolves_write:
  assumes ev: "evolves w w2"
    and n: "length (requests w) \<le> n" "n < length (requests w2)"
           "requests w2 ! n = File_request a s folder filename"
           "service w n (File_request a s folder filename) = Some content" "content \<noteq> []"
    and wr: "open_write (path_join (path_join OUTPUT_PATH folder) filename) content w2 = (r, w3)"
  shows "evolves w w3"
proof (cases r)
  case (Inl e)
  with wr have "w3 = w2"
    by (auto simp: open_write_def split: sum.splits option.splits node.splits if_splits)
  with ev show ?thesis by simp
next
  case (Inr u)
  let ?s = "path_join (path_join OUTPUT_PATH folder) filename"
  from wr Inr obtain p where p: "resolve w2 ?s = Inr p" "lookup (nodes w2) p \<noteq> Some Dir"
    "w3 = w2\<lparr>nodes := (nodes w2)(p \<mapsto> File content)\<rparr>"
    by (auto simp: open_write_def split: sum.splits option.splits node.splits if_splits)
  from p(2) have pd: "nodes w2 p \<noteq> Some Dir" by (auto simp: lookup_def split: if_splits)
  from ev have c: "cwd w2 = cwd w" by (simp add: evolves_def)
  from resolve_abs_path[OF p(1)] c have pa: "p = abs_path (cwd w) ?s" by simp
  have rw: "rewritten w w3 p"
    unfolding rewritten_def using n pa p(3) by auto
  have "nodes w3 q = Some (File c) \<or> rewritten w w3 q" if "nodes w q = Some (File c)" for q c
  proof (cases "q = p")
    case True with rw show ?thesis by simp
  next
    case False
    from ev that consider "nodes w2 q = Some (File c)" | "rewritten w w2 q"
      by (auto simp: evolves_def)
    then show ?thesis
    proof cases
      case 1 with False p(3) show ?thesis by simp
    next
      case 2
      have "rewritten w w3 q"
        by (rule rewritten_mono[OF 2, of _ "[]"]) (use False p(3) in auto)
      then show ?thesis ..
    qed
  qed
  moreover have "nodes w3 q = Some Dir" if "nodes w q = Some Dir" for q
    using that ev pd p(3) by (auto simp: evolves_def)
  ultimately show ?thesis using ev p(3) by (auto simp: evolves_def)
qed






subsection \<open>\<^verbatim>\<open>create_folder_or_file\<close> and \<^verbatim>\<open>save_file_to_output\<close>\<close>

lemma create_OUT_OUT:
  "create_folder_or_file OUTPUT_PATH OUTPUT_PATH w =
     (if os_path_exists w ''Output/Output'' then (Inr (), w) else os_makedirs ''Output/Output'' w)"
  by (subst create_folder_or_file.simps) (simp add: OUTPUT_PATH_def path_join_def)

lemma create_OUT:
  "create_folder_or_file OUTPUT_PATH k w =
     (if os_path_exists w (full_item k) then (Inr (), w)
      else if CHR ''.'' \<in> set k then
        (case ask_chatgpt_for_file_content OUTPUT_PATH k w of
           (Inl e, w1) \<Rightarrow> (Inl e, w1)
         | (Inr None, w1) \<Rightarrow> (Inr (), emit (Failed_to_retrieve k) w1)
         | (Inr (Some file_content), w1) \<Rightarrow>
             if file_content \<noteq> [] then save_file_to_output OUTPUT_PATH k file_content w1
             else (Inr (), emit (Failed_to_retrieve k) w1))
      else os_makedirs (full_item k) w)"
  by (subst create_folder_or_file.simps) (simp add: full_item_def Let_def)

lemma save_unfold:
  "save_file_to_output folder filename content w =
     (case create_folder_or_file OUTPUT_PATH folder w of
        (Inl e, w1) \<Rightarrow> (Inl e, w1)
      | (Inr _, w1) \<Rightarrow>
          (case open_write (path_join (path_join OUTPUT_PATH folder) filename) content w1 of
             (Inr _, w2) \<Rightarrow> (Inr (), emit (Saved_file (path_join (path_join OUTPUT_PATH folder) filename)) w2)
           | (Inl _, w2) \<Rightarrow> (Inr (), emit (Error_saving (path_join (path_join OUTPUT_PATH folder) filename)) w2)))"
  by (subst save_file_to_output.simps) (simp only: Let_def)

lemma request_then_save:
  assumes cr: "\<And>v r v'. create_folder_or_file OUTPUT_PATH folder v = (r, v') \<Longrightarrow> evolves v v'"
    and ask: "ask_chatgpt_for_file_content folder filename w = (Inr (Some content), w1)"
    and ne: "content \<noteq> []"
    and sv: "save_file_to_output folder filename content w1 = (r, w')"
  shows "evolves w w'"
proof -
  from ask_effect[OF ask] obtain a s where
    rq: "requests w1 = requests w @ [File_request a s folder filename]"
        "service w (length (requests w)) (File_request a s folder filename) = Some content"
    by auto
  have e1: "evolves w w1" using ask by (rule evolves_ask)
  obtain r2 w2 where c: "create_folder_or_file OUTPUT_PATH folder w1 = (r2, w2)" by force
  from cr[OF c] have e2: "evolves w1 w2" .
  then obtain ext where ext: "requests w2 = requests w1 @ ext" by (auto simp: evolves_def)
  have e: "evolves w w2" using e1 e2 by (rule evolves_trans)
  show ?thesis
  proof (cases r2)
    case (Inl x)
    with sv c have "w' = w2" by (simp add: save_unfold)
    with e show ?thesis by simp
  next
    case (Inr u)
    obtain r3 w3 where o: "open_write (path_join (path_join OUTPUT_PATH folder) filename) content w2 = (r3, w3)"
      by force
    have "evolves w w3"
      by (rule evolves_write[OF e _ _ _ rq(2) ne o]) (simp_all add: ext rq(1) nth_append)
    moreover from sv c Inr o have "\<exists>ev. w' = emit ev w3"
      by (cases r3) (auto simp: save_unfold)
    ultimately show ?thesis by (auto intro: evolves_emit)
  qed
qed

lemma create_OUT_OUT_evolves: "create_folder_or_file OUTPUT_PATH OUTPUT_PATH w = (r, w') \<Longrightarrow> evolves w w'"
  by (auto simp: create_OUT_OUT split: if_splits dest: evolves_makedirs)

lemma create_OUT_evolves:
  assumes "create_folder_or_file OUTPUT_PATH k w = (r, w')"
  shows "evolves w w'"
proof (cases "os_path_exists w (full_item k)")
  case True
  with assms show ?thesis by (simp add: create_OUT)
next
  case False
  show ?thesis
  proof (cases "CHR ''.'' \<in> set k")
    case dot: True
    obtain r1 w1 where a: "ask_chatgpt_for_file_content OUTPUT_PATH k w = (r1, w1)" by force
    have e1: "evolves w w1" using a by (rule evolves_ask)
    show ?thesis
    proof (cases "\<exists>content. r1 = Inr (Some content) \<and> content \<noteq> []")
      case True
      then obtain content where c: "r1 = Inr (Some content)" "content \<noteq> []" by blast
      with assms False dot a have "save_file_to_output OUTPUT_PATH k content w1 = (r, w')"
        by (simp add: create_OUT)
      from request_then_save[OF create_OUT_OUT_evolves a[unfolded c(1)] c(2) this]
      show ?thesis .
    next
      case no: False
      with assms False dot a have "w' = w1 \<or> (\<exists>ev. w' = emit ev w1)"
        by (auto simp: create_OUT split: sum.splits option.splits if_splits)
      with e1 show ?thesis by (auto intro: evolves_emit)
    qed
  next
    case False
    with assms \<open>\<not> os_path_exists w (full_item k)\<close> show ?thesis
      by (auto simp: create_OUT dest: evolves_makedirs)
  qed
qed






subsection \<open>The loops\<close>




lemma create_nested_evolves: "create_nested m w = (r, w') \<Longrightarrow> evolves w w'"
proof (induction m arbitrary: w)
  case Nil
  then show ?case by simp
next
  case (Cons a m)
  obtain k v where a: "a = (k, v)" by force
  obtain r1 w1 where c: "create_folder_or_file OUTPUT_PATH k w = (r1, w1)" by force
  have e1: "evolves w w1" using c by (rule create_OUT_evolves)
  show ?case
  proof (cases r1)
    case (Inl e)
    with Cons.prems a c e1 show ?thesis by auto
  next
    case (Inr u)
    with Cons.prems a c have "create_nested m w1 = (r, w')" by simp
    from e1 Cons.IH[OF this] show ?thesis by (rule evolves_trans)
  qed
qed



lemma append_files_result:
  "append_files folder fs fl = Inr fl'
     \<Longrightarrow> fl' = fl @ map (\<lambda>s. (folder, rstrip ''/'' s)) (names fs)"
proof (induction fs arbitrary: fl)
  case Nil
  then show ?case by simp
next
  case (Cons f fs)
  from Cons.prems obtain s where s: "f = JStr s"
    by (cases f) auto
  with Cons.prems have "append_files folder fs (fl @ [(folder, rstrip ''/'' s)]) = Inr fl'" by simp
  from Cons.IH[OF this] s show ?case by simp
qed

lemma walk_mapping_evolves: "walk_mapping m fl w = (r, w') \<Longrightarrow> evolves w w'"
proof (induction m arbitrary: fl w)
  case Nil
  then show ?case by simp
next
  case (Cons a m)
  obtain k v where a: "a = (k, v)" by force
  obtain r1 w1 where c: "create_folder_or_file OUTPUT_PATH k w = (r1, w1)" by force
  have e1: "evolves w w1" using c by (rule create_OUT_evolves)
  show ?case
  proof (cases r1)
    case (Inl e)
    with Cons.prems a c e1 show ?thesis by auto
  next
    case (Inr u)
    obtain r2 w2 where n: "create_nested (case v of JObj inner \<Rightarrow> inner | _ \<Rightarrow> []) w1 = (r2, w2)"
      by force
    have e2: "evolves w1 w2" using n by (rule create_nested_evolves)
    have e12: "evolves w w2" using e1 e2 by (rule evolves_trans)
    from Cons.prems a c Inr n
    have "w' = w1 \<or> w' = w2 \<or> (\<exists>fl1. walk_mapping m fl1 w1 = (r, w')) \<or> (\<exists>fl1. walk_mapping m fl1 w2 = (r, w'))"
      by (cases v) (auto split: sum.splits prod.splits)
    then consider "w' = w1" | "w' = w2" | fl1 where "walk_mapping m fl1 w1 = (r, w')"
      | fl1 where "walk_mapping m fl1 w2 = (r, w')" by blast
    then show ?thesis
    proof cases
      case 1 with e1 show ?thesis by simp
    next
      case 2 with e12 show ?thesis by simp
    next
      case 3
      from e1 Cons.IH[OF 3] show ?thesis by (rule evolves_trans)
    next
      case 4
      from e12 Cons.IH[OF 4] show ?thesis by (rule evolves_trans)
    qed
  qed
qed

lemma walk_mapping_Cons_Inr:
  assumes "walk_mapping ((k, v) # m) fl w = (Inr fl', w')"
  obtains w1 where "create_folder_or_file OUTPUT_PATH k w = (Inr (), w1)"
    and "case v of
           JArr fs \<Rightarrow> \<exists>fl1. append_files k fs fl = Inr fl1 \<and> walk_mapping m fl1 w1 = (Inr fl', w')
         | JObj inner \<Rightarrow> \<exists>w2. create_nested inner w1 = (Inr (), w2) \<and> walk_mapping m fl w2 = (Inr fl', w')
         | _ \<Rightarrow> walk_mapping m fl w1 = (Inr fl', w')"
proof -
  obtain r1 w1 where c: "create_folder_or_file OUTPUT_PATH k w = (r1, w1)" by force
  show thesis
  proof (cases r1)
    case (Inl e)
    with assms c show ?thesis by simp
  next
    case (Inr u)
    have "case v of
           JArr fs \<Rightarrow> \<exists>fl1. append_files k fs fl = Inr fl1 \<and> walk_mapping m fl1 w1 = (Inr fl', w')
         | JObj inner \<Rightarrow> \<exists>w2. create_nested inner w1 = (Inr (), w2) \<and> walk_mapping m fl w2 = (Inr fl', w')
         | _ \<Rightarrow> walk_mapping m fl w1 = (Inr fl', w')"
    proof (cases v)
      case (JArr fs)
      with assms c Inr show ?thesis
        by (cases "append_files k fs fl") simp_all
    next
      case (JObj inner)
      obtain r2 w2 where n: "create_nested inner w1 = (r2, w2)" by force
      with assms c Inr JObj show ?thesis
        by (cases r2) simp_all
    qed (use assms c Inr in simp_all)
    with c Inr that show ?thesis by simp
  qed
qed





lemma emit_keeps [simp]:
  "root_dir (emit e w) = root_dir w" "is_dict (emit e w) = is_dict w"
  "ready (emit e w) k = ready w k"
  by (auto simp: root_dir_def is_dict_def ready_def emit_def os_path_exists_def resolve_def
        split: sum.splits)


subsection \<open>Whole runs\<close>

lemma scaffold_walk_evolves: "scaffold_walk sc w = (r, w') \<Longrightarrow> evolves w w'"
  by (cases sc) (auto simp: scaffold_walk_def dest: walk_mapping_evolves split: sum.splits)



lemma same_tree_exists:
  "nodes u = nodes w \<Longrightarrow> cwd u = cwd w \<Longrightarrow> os_path_exists u s = os_path_exists w s"
  by (auto simp: os_path_exists_def resolve_def split: sum.splits)



subsection \<open>Runs on concrete proposals\<close>

lemmas run_eval = OUTPUT_PATH_def path_join_def components_def is_absolute_def ends_with_sep_def
  lookup_def step_def resolve_def os_path_exists_def os_makedirs_def open_write_def
  ask_chatgpt_for_file_content_def send_request_def emit_def dict_get_def
  create_folder_or_file.simps save_file_to_output.simps scaffold_walk_def
  generate_software_files_def rstrip_def initial_world_def approved_world_def proposal_def
  Let_def



text \<open>
  C8, the code at the input \<^verbatim>\<open>{"src": {"utils": "helpers"}}\<close>: the run creates
  \<^verbatim>\<open>Output/src\<close> and \<^verbatim>\<open>Output/utils\<close>; there is no \<^verbatim>\<open>Output/src/utils\<close>.
\<close>

theorem nested_mapping_created_at_root:
  "fst (generate_software_files
          (approved_world (JObj [(''src'', JObj [(''utils'', JStr ''helpers'')])]) (\<lambda>n r. Some ''x''))) = Inr ()
   \<and> nodes (snd (generate_software_files
          (approved_world (JObj [(''src'', JObj [(''utils'', JStr ''helpers'')])]) (\<lambda>n r. Some ''x''))))
        [''Output'', ''src''] = Some Dir
   \<and> nodes (snd (generate_software_files
          (approved_world (JObj [(''src'', JObj [(''utils'', JStr ''helpers'')])]) (\<lambda>n r. Some ''x''))))
        [''Output'', ''utils''] = Some Dir
   \<and> nodes (snd (generate_software_files
          (approved_world (JObj [(''src'', JObj [(''utils'', JStr ''helpers'')])]) (\<lambda>n r. Some ''x''))))
        [''Output'', ''src'', ''utils''] = None"
  by (simp add: run_eval)

subsection \<open>The generation sequence\<close>

lemma listed_Cons:
  "listed ((k, v) # m) =
     (case v of JArr fs \<Rightarrow> map (\<lambda>s. (k, rstrip ''/'' s)) (names fs) | _ \<Rightarrow> []) @ listed m"
  by (simp add: listed_def)

lemma walk_mapping_result: "walk_mapping m fl w = (Inr fl', w') \<Longrightarrow> fl' = fl @ listed m"
proof (induction m arbitrary: fl w)
  case Nil
  then show ?case by (simp add: listed_def)
next
  case (Cons a m)
  obtain k v where a: "a = (k, v)" by force
  from Cons.prems a obtain w1 where
    cv: "case v of
           JArr fs \<Rightarrow> \<exists>fl1. append_files k fs fl = Inr fl1 \<and> walk_mapping m fl1 w1 = (Inr fl', w')
         | JObj inner \<Rightarrow> \<exists>w2. create_nested inner w1 = (Inr (), w2) \<and> walk_mapping m fl w2 = (Inr fl', w')
         | _ \<Rightarrow> walk_mapping m fl w1 = (Inr fl', w')"
    using walk_mapping_Cons_Inr[of k v m fl w fl' w'] by blast
  show ?case
  proof (cases v)
    case (JArr fs)
    with cv obtain fl1 where
      f: "append_files k fs fl = Inr fl1" "walk_mapping m fl1 w1 = (Inr fl', w')" by auto
    from Cons.IH[OF f(2)] append_files_result[OF f(1)] a JArr show ?thesis
      by (simp add: listed_Cons)
  next
    case (JObj inner)
    with cv obtain w2 where "walk_mapping m fl w2 = (Inr fl', w')" by auto
    from Cons.IH[OF this] a JObj show ?thesis by (simp add: listed_Cons)
  next
    case JNull
    with cv Cons.IH[of fl w1] a show ?thesis by (simp add: listed_Cons)
  next
    case (JBool b)
    with cv Cons.IH[of fl w1] a show ?thesis by (simp add: listed_Cons)
  next
    case (JInt i)
    with cv Cons.IH[of fl w1] a show ?thesis by (simp add: listed_Cons)
  next
    case (JFloat q)
    with cv Cons.IH[of fl w1] a show ?thesis by (simp add: listed_Cons)
  next
    case (JStr s)
    with cv Cons.IH[of fl w1] a show ?thesis by (simp add: listed_Cons)
  qed
qed

lemma listed_folders: "fst ` set (listed m) \<subseteq> fst ` set m"
proof (induction m)
  case Nil
  then show ?case by (simp add: listed_def)
next
  case (Cons a m)
  obtain k v where a: "a = (k, v)" by force
  have "fst ` set (case v of JArr fs \<Rightarrow> map (\<lambda>s. (k, rstrip ''/'' s)) (names fs) | _ \<Rightarrow> []) \<subseteq> {k}"
    by (cases v) auto
  with Cons a show ?case by (auto simp: listed_Cons)
qed

lemma distinct_pairs: "distinct (map f ns) \<Longrightarrow> distinct (map (\<lambda>s. (k, f s)) ns)"
  by (induction ns) auto

lemma distinct_listed:
  assumes "distinct (map fst m)"
    and "\<forall>(k, v)\<in>set m. case v of JArr fs \<Rightarrow> distinct (map (rstrip ''/'') (names fs)) | _ \<Rightarrow> True"
  shows "distinct (listed m)"
  using assms
proof (induction m)
  case Nil
  then show ?case by (simp add: listed_def)
next
  case (Cons a m)
  obtain k v where a: "a = (k, v)" by force
  let ?x = "case v of JArr fs \<Rightarrow> map (\<lambda>s. (k, rstrip ''/'' s)) (names fs) | _ \<Rightarrow> []"
  have dx: "distinct ?x"
    using Cons.prems(2) a by (cases v) (auto intro: distinct_pairs)
  have fx: "fst ` set ?x \<subseteq> {k}" by (cases v) auto
  have km: "k \<notin> fst ` set m" using Cons.prems(1) a by simp
  have "set ?x \<inter> set (listed m) = {}"
  proof (rule ccontr)
    assume "set ?x \<inter> set (listed m) \<noteq> {}"
    then obtain e where e: "e \<in> set ?x" "e \<in> set (listed m)" by blast
    from e(1) fx have "fst e = k" by blast
    moreover from e(2) listed_folders[of m] have "fst e \<in> fst ` set m" by blast
    ultimately show False using km by simp
  qed
  moreover have "distinct (listed m)" using Cons.prems a by (intro Cons.IH) auto
  ultimately show ?case using dx a by (simp add: listed_Cons)
qed

text \<open>
  C9, amended. The Walker removes no duplicates: the generation sequence is the listing
  of the scaffold as it stands. When no list of the scaffold names the same file twice
  (after removal of trailing slashes), no pair \<^verbatim>\<open>(folder, filename)\<close> occurs twice in the
  sequence.
\<close>

theorem generation_sequence_distinct:
  assumes "scaffold_walk sc w = (Inr file_list, w')" and "names_distinct sc"
  shows "distinct file_list"
proof (cases sc)
  case (JObj m)
  with assms(1) have "walk_mapping m [] w = (Inr file_list, w')" by (simp add: scaffold_walk_def)
  from walk_mapping_result[OF this] have "file_list = listed m" by simp
  moreover from assms(2) JObj have "distinct (listed m)"
    by (intro distinct_listed) (simp_all add: names_distinct_def)
  ultimately show ?thesis by simp
next
  case (JArr fs)
  with assms(1) have "append_files [] fs [] = Inr file_list"
    by (auto simp: scaffold_walk_def split: sum.splits)
  from append_files_result[OF this] assms(2) JArr show ?thesis
    by (simp add: names_distinct_def distinct_pairs)
qed (use assms(1) in \<open>auto simp: scaffold_walk_def\<close>)

text \<open>
  C9, amended, on \<^verbatim>\<open>{"src": ["main.py", "utils.py/"], "docs": ["main.py"]}\<close>: the same
  file name under two folders gives two different pairs.
\<close>

theorem generation_sequence_distinct_witness:
  "fst (scaffold_walk
          (JObj [(''src'', JArr [JStr ''main.py'', JStr ''utils.py/'']), (''docs'', JArr [JStr ''main.py''])])
          (approved_world JNull (\<lambda>n r. None)))
     = Inr [(''src'', ''main.py''), (''src'', ''utils.py''), (''docs'', ''main.py'')]
   \<and> names_distinct
        (JObj [(''src'', JArr [JStr ''main.py'', JStr ''utils.py/'']), (''docs'', JArr [JStr ''main.py''])])
   \<and> distinct [(''src'', ''main.py''), (''src'', ''utils.py''), (''docs'', ''main.py'')]"
proof -
  let ?sc = "JObj [(''src'', JArr [JStr ''main.py'', JStr ''utils.py/'']), (''docs'', JArr [JStr ''main.py''])]"
  let ?w = "approved_world JNull (\<lambda>n r. None)"
  have 0: "fst (scaffold_walk ?sc ?w)
      = Inr [(''src'', ''main.py''), (''src'', ''utils.py''), (''docs'', ''main.py'')]"
    by (simp add: run_eval)
  then have 1: "scaffold_walk ?sc ?w
      = (Inr [(''src'', ''main.py''), (''src'', ''utils.py''), (''docs'', ''main.py'')],
         snd (scaffold_walk ?sc ?w))"
    by (metis prod.collapse)
  have 2: "names_distinct ?sc"
    by (simp add: names_distinct_def rstrip_def)
  from generation_sequence_distinct[OF 1 2] 0 2 show ?thesis by blast
qed


text \<open>
  C9 as stated fails on \<^verbatim>\<open>{"src": ["main.py", "main.py"]}\<close>: the pair
  \<^verbatim>\<open>("src", "main.py")\<close> occurs twice in the generation sequence.
\<close>

theorem duplicate_names_counterexample:
  "fst (scaffold_walk (JObj [(''src'', JArr [JStr ''main.py'', JStr ''main.py''])])
          (approved_world (JObj [(''src'', JArr [JStr ''main.py'', JStr ''main.py''])]) (\<lambda>n r. None)))
     = Inr [(''src'', ''main.py''), (''src'', ''main.py'')]
   \<and> \<not> distinct [(''src'', ''main.py''), (''src'', ''main.py'')]"
  by (simp add: run_eval)

subsection \<open>The generation loop, file by file\<close>

lemma open_write_writable:
  assumes "writable w s"
  shows "open_write s c w = (Inr (), w\<lparr>nodes := (nodes w)(abs_path (cwd w) s \<mapsto> File c)\<rparr>)"
proof -
  from assms obtain p where p: "resolve w s = Inr p" "lookup (nodes w) p \<noteq> Some Dir" "\<not> ends_with_sep s"
    by (auto simp: writable_def)
  from resolve_abs_path[OF p(1)] have "p = abs_path (cwd w) s" .
  with p show ?thesis
    by (cases "lookup (nodes w) (abs_path (cwd w) s)")
       (auto simp: open_write_def split: node.splits)
qed

lemma open_write_effect:
  assumes "open_write s c w = (r, w')"
  shows "cwd w' = cwd w \<and> service w' = service w \<and> requests w' = requests w
         \<and> architecture_data w' = architecture_data w \<and> stdout w' = stdout w
         \<and> extends (nodes w) (nodes w')"
proof (cases "\<exists>p. resolve w s = Inr p \<and> lookup (nodes w) p \<noteq> Some Dir \<and> \<not> ends_with_sep s")
  case True
  then have "writable w s" by (simp add: writable_def)
  from open_write_writable[OF this, of c] assms True
  have w': "w' = w\<lparr>nodes := (nodes w)(abs_path (cwd w) s \<mapsto> File c)\<rparr>" by simp
  from True obtain p where p: "resolve w s = Inr p" "lookup (nodes w) p \<noteq> Some Dir" by blast
  from resolve_abs_path[OF p(1)] p(2) have "nodes w (abs_path (cwd w) s) \<noteq> Some Dir"
    by (auto simp: lookup_def split: if_splits)
  then show ?thesis by (auto simp: w' extends_def)
next
  case False
  with assms have "w' = w"
    by (auto simp: open_write_def split: sum.splits option.splits node.splits if_splits)
  then show ?thesis by simp
qed

lemma same_tree_resolve: "nodes u = nodes w \<Longrightarrow> cwd u = cwd w \<Longrightarrow> resolve u s = resolve w s"
  by (simp add: resolve_def)

lemma same_tree_writable:
  assumes "nodes u = nodes w" "cwd u = cwd w"
  shows "writable u s = writable w s"
  unfolding writable_def same_tree_resolve[OF assms] assms(1) ..

lemma save_existing:
  assumes "os_path_exists w (full_item folder)"
  shows "\<exists>ev. save_file_to_output folder filename c w
           = (Inr (), emit ev (snd (open_write (target folder filename) c w)))"
proof -
  obtain r3 w3 where o: "open_write (target folder filename) c w = (r3, w3)" by force
  with assms show ?thesis
    by (cases r3) (auto simp: save_unfold create_OUT target_def)
qed

lemma ask_is_dict:
  assumes "is_dict w"
  shows "ask_chatgpt_for_file_content folder filename w =
     (case service w (length (requests w)) (file_request_of w folder filename) of
        Some c \<Rightarrow> (Inr (Some c), w\<lparr>requests := requests w @ [file_request_of w folder filename]\<rparr>)
      | None \<Rightarrow> (Inr None, emit Error_file_content
                   (w\<lparr>requests := requests w @ [file_request_of w folder filename]\<rparr>)))"
  using assms
  by (auto simp: is_dict_def ask_chatgpt_for_file_content_def send_request_def file_request_of_def
        split: option.splits)

lemma generate_step:
  assumes d: "is_dict w" and ex: "os_path_exists w (full_item folder)"
  shows "\<exists>w1. generate_files ((folder, filename) # rest) w = generate_files rest w1
           \<and> cwd w1 = cwd w \<and> service w1 = service w \<and> architecture_data w1 = architecture_data w
           \<and> requests w1 = requests w @ [file_request_of w folder filename]
           \<and> extends (nodes w) (nodes w1)
           \<and> (service w (length (requests w)) (file_request_of w folder filename) = None
                \<longrightarrow> nodes w1 = nodes w)
           \<and> (\<forall>c. service w (length (requests w)) (file_request_of w folder filename) = Some c
                  \<and> c \<noteq> [] \<and> writable w (target folder filename)
                \<longrightarrow> nodes w1 = (nodes w)(abs_path (cwd w) (target folder filename) \<mapsto> File c))"
proof -
  let ?v = "emit (Requesting filename folder) w"
  let ?rq = "file_request_of w folder filename"
  let ?w1 = "?v\<lparr>requests := requests w @ [?rq]\<rparr>"
  have d0: "is_dict ?v" using d by simp
  have rq0: "file_request_of ?v folder filename = ?rq"
    by (simp add: file_request_of_def emit_def)
  have ask: "ask_chatgpt_for_file_content folder filename ?v =
     (case service w (length (requests w)) ?rq of
        Some c \<Rightarrow> (Inr (Some c), ?w1)
      | None \<Rightarrow> (Inr None, emit Error_file_content ?w1))"
    unfolding ask_is_dict[OF d0] rq0 by (simp add: emit_def split: option.splits)
  show ?thesis
  proof (cases "\<exists>c. service w (length (requests w)) ?rq = Some c \<and> c \<noteq> []")
    case False
    let ?w2 = "emit (Failed_to_retrieve filename)
                 (case service w (length (requests w)) ?rq of
                    None \<Rightarrow> emit Error_file_content ?w1 | Some c \<Rightarrow> ?w1)"
    have "generate_files ((folder, filename) # rest) w = generate_files rest ?w2"
      using False by (simp add: ask split: option.splits)
    moreover have "cwd ?w2 = cwd w \<and> service ?w2 = service w
        \<and> architecture_data ?w2 = architecture_data w \<and> requests ?w2 = requests w @ [?rq]
        \<and> nodes ?w2 = nodes w"
      by (simp add: emit_def split: option.splits)
    ultimately show ?thesis using False by (intro exI[of _ ?w2]) auto
  next
    case True
    then obtain c where c: "service w (length (requests w)) ?rq = Some c" "c \<noteq> []" by blast
    have ex1: "os_path_exists ?w1 (full_item folder)"
      using ex same_tree_exists[of ?w1 w] by (simp add: emit_def)
    from save_existing[OF ex1] obtain ev where
      sv: "save_file_to_output folder filename c ?w1
             = (Inr (), emit ev (snd (open_write (target folder filename) c ?w1)))" by blast
    let ?w3 = "snd (open_write (target folder filename) c ?w1)"
    have g: "generate_files ((folder, filename) # rest) w = generate_files rest (emit ev ?w3)"
      using c sv by (simp add: ask)
    have eff: "cwd ?w3 = cwd ?w1 \<and> service ?w3 = service ?w1 \<and> requests ?w3 = requests ?w1
         \<and> architecture_data ?w3 = architecture_data ?w1 \<and> stdout ?w3 = stdout ?w1
         \<and> extends (nodes ?w1) (nodes ?w3)"
      by (rule open_write_effect[of "target folder filename" c ?w1 "fst (open_write (target folder filename) c ?w1)"])
         simp
    have wr: "nodes ?w3 = (nodes w)(abs_path (cwd w) (target folder filename) \<mapsto> File c)"
      if "writable w (target folder filename)"
    proof -
      from that have "writable ?w1 (target folder filename)"
        using same_tree_writable[of ?w1 w] by (simp add: emit_def)
      from open_write_writable[OF this, of c] show ?thesis by (simp add: emit_def)
    qed
    show ?thesis
      using g eff wr c by (intro exI[of _ "emit ev ?w3"]) (auto simp: emit_def)
  qed
qed

lemma generate_files_requests:
  assumes "is_dict w" "\<forall>f\<in>fst ` set fl. os_path_exists w (full_item f)"
  shows "\<exists>w'. generate_files fl w = (Inr (), w')
           \<and> requests w' = requests w @ map (\<lambda>(folder, filename). file_request_of w folder filename) fl"
  using assms
proof (induction fl arbitrary: w)
  case Nil
  then show ?case by simp
next
  case (Cons a fl)
  obtain folder filename where a: "a = (folder, filename)" by force
  from Cons.prems a have ex: "os_path_exists w (full_item folder)" by simp
  from generate_step[OF Cons.prems(1) ex, of filename fl] obtain w1 where
    w1: "generate_files ((folder, filename) # fl) w = generate_files fl w1"
      "cwd w1 = cwd w" "architecture_data w1 = architecture_data w"
      "requests w1 = requests w @ [file_request_of w folder filename]"
      "extends (nodes w) (nodes w1)"
    by blast
  have d1: "is_dict w1" using Cons.prems(1) w1(3) by (simp add: is_dict_def)
  have e1: "\<forall>f\<in>fst ` set fl. os_path_exists w1 (full_item f)"
  proof
    fix f assume "f \<in> fst ` set fl"
    with Cons.prems(2) have "os_path_exists w (full_item f)" by auto
    with w1(5,2) show "os_path_exists w1 (full_item f)" by (rule exists_extends)
  qed
  have rq: "file_request_of w1 = file_request_of w"
    using w1(3) by (simp add: file_request_of_def fun_eq_iff)
  from Cons.IH[OF d1 e1] obtain w' where
    "generate_files fl w1 = (Inr (), w')"
    "requests w' = requests w1 @ map (\<lambda>(folder, filename). file_request_of w1 folder filename) fl"
    by blast
  with w1(1,4) rq a show ?case by simp
qed

lemma open_write_unwritable:
  assumes "\<not> writable w s"
  shows "snd (open_write s c w) = w"
  using assms
  by (auto simp: open_write_def writable_def split: sum.splits option.splits node.splits)

lemma walk_file_added:
  assumes "lookup t q \<noteq> Some Dir"
  shows "walk (t(q \<mapsto> File c)) cur cs = Inr p \<longleftrightarrow> walk t cur cs = Inr p"
proof (induction cs arbitrary: cur)
  case Nil
  show ?case by simp
next
  case (Cons x cs)
  show ?case
  proof (cases "cur = q")
    case True
    from assms have q: "q \<noteq> []" by (auto simp: lookup_def)
    from assms True q show ?thesis
      by (cases "t q") (auto simp: lookup_def split: node.splits)
  next
    case False
    then have l: "lookup (t(q \<mapsto> File c)) cur = lookup t cur" by (simp add: lookup_def)
    have "walk (t(q \<mapsto> File c)) cur (x # cs) =
        (case lookup t cur of
           None \<Rightarrow> Inl FileNotFoundError
         | Some (File _) \<Rightarrow> Inl NotADirectoryError
         | Some Dir \<Rightarrow> walk (t(q \<mapsto> File c)) (step cur x) cs)"
      by (simp only: walk.simps l)
    then show ?thesis using Cons.IH[of "step cur x"]
      by (simp del: fun_upd_apply split: option.splits node.splits)
  qed
qed

lemma writable_file_added:
  assumes n: "nodes w1 = (nodes w)(q \<mapsto> File c)" and q: "lookup (nodes w) q \<noteq> Some Dir"
    and cw: "cwd w1 = cwd w"
  shows "writable w1 s = writable w s"
proof -
  have r: "resolve w1 s = Inr p \<longleftrightarrow> resolve w s = Inr p" for p
    using walk_file_added[OF q] by (simp add: resolve_def n cw)
  have l: "lookup (nodes w1) p \<noteq> Some Dir \<longleftrightarrow> lookup (nodes w) p \<noteq> Some Dir" for p
    using q by (cases "p = q") (auto simp: n lookup_def)
  show ?thesis by (simp add: writable_def r l)
qed

lemma generate_step_failed:
  assumes d: "is_dict w"
    and s: "service w (length (requests w)) (file_request_of w folder filename) = None"
  shows "\<exists>w1. generate_files ((folder, filename) # rest) w = generate_files rest w1
           \<and> cwd w1 = cwd w \<and> service w1 = service w \<and> architecture_data w1 = architecture_data w
           \<and> requests w1 = requests w @ [file_request_of w folder filename]
           \<and> nodes w1 = nodes w"
proof -
  let ?v = "emit (Requesting filename folder) w"
  let ?rq = "file_request_of w folder filename"
  let ?w1 = "?v\<lparr>requests := requests w @ [?rq]\<rparr>"
  let ?w2 = "emit (Failed_to_retrieve filename) (emit Error_file_content ?w1)"
  have d0: "is_dict ?v" using d by simp
  have rq0: "file_request_of ?v folder filename = ?rq"
    by (simp add: file_request_of_def emit_def)
  have ask: "ask_chatgpt_for_file_content folder filename ?v = (Inr None, emit Error_file_content ?w1)"
    unfolding ask_is_dict[OF d0] rq0 using s by (simp add: emit_def)
  have "generate_files ((folder, filename) # rest) w = generate_files rest ?w2"
    by (simp add: ask)
  then show ?thesis by (intro exI[of _ ?w2]) (simp add: emit_def)
qed

lemma generate_step_saved:
  assumes d: "is_dict w" and ex: "os_path_exists w (full_item folder)"
    and s: "service w (length (requests w)) (file_request_of w folder filename) = Some c" "c \<noteq> []"
  shows "\<exists>w1. generate_files ((folder, filename) # rest) w = generate_files rest w1
           \<and> cwd w1 = cwd w \<and> service w1 = service w \<and> architecture_data w1 = architecture_data w
           \<and> requests w1 = requests w @ [file_request_of w folder filename]
           \<and> nodes w1 = (if writable w (target folder filename)
                          then (nodes w)(abs_path (cwd w) (target folder filename) \<mapsto> File c)
                          else nodes w)"
proof -
  let ?v = "emit (Requesting filename folder) w"
  let ?rq = "file_request_of w folder filename"
  let ?w1 = "?v\<lparr>requests := requests w @ [?rq]\<rparr>"
  have d0: "is_dict ?v" using d by simp
  have rq0: "file_request_of ?v folder filename = ?rq"
    by (simp add: file_request_of_def emit_def)
  have ask: "ask_chatgpt_for_file_content folder filename ?v = (Inr (Some c), ?w1)"
    unfolding ask_is_dict[OF d0] rq0 using s by (simp add: emit_def)
  have ex1: "os_path_exists ?w1 (full_item folder)"
    using ex same_tree_exists[of ?w1 w] by (simp add: emit_def)
  from save_existing[OF ex1] obtain ev where
    sv: "save_file_to_output folder filename c ?w1
           = (Inr (), emit ev (snd (open_write (target folder filename) c ?w1)))" by blast
  let ?w3 = "snd (open_write (target folder filename) c ?w1)"
  have g: "generate_files ((folder, filename) # rest) w = generate_files rest (emit ev ?w3)"
    using s sv by (simp add: ask)
  have eff: "cwd ?w3 = cwd ?w1 \<and> service ?w3 = service ?w1 \<and> requests ?w3 = requests ?w1
       \<and> architecture_data ?w3 = architecture_data ?w1 \<and> stdout ?w3 = stdout ?w1
       \<and> extends (nodes ?w1) (nodes ?w3)"
    by (rule open_write_effect[of "target folder filename" c ?w1 "fst (open_write (target folder filename) c ?w1)"])
       simp
  have same: "writable ?w1 (target folder filename) = writable w (target folder filename)"
    using same_tree_writable[of ?w1 w] by (simp add: emit_def)
  have n: "nodes ?w3 = (if writable w (target folder filename)
                          then (nodes w)(abs_path (cwd w) (target folder filename) \<mapsto> File c)
                          else nodes w)"
  proof (cases "writable w (target folder filename)")
    case True
    with same have "writable ?w1 (target folder filename)" by simp
    from open_write_writable[OF this, of c] True show ?thesis by (simp add: emit_def)
  next
    case False
    with same have "\<not> writable ?w1 (target folder filename)" by simp
    from open_write_unwritable[OF this, of c] False show ?thesis by (simp add: emit_def)
  qed
  show ?thesis
    using g eff n by (intro exI[of _ "emit ev ?w3"]) (simp add: emit_def)
qed

lemma generate_three:
  assumes d: "is_dict w"
    and ex: "os_path_exists w (full_item d1)" "os_path_exists w (full_item d3)"
    and s1: "service w (length (requests w)) (file_request_of w d1 f1) = Some c1" "c1 \<noteq> []"
    and s2: "service w (length (requests w) + 1) (file_request_of w d2 f2) = None"
    and s3: "service w (length (requests w) + 2) (file_request_of w d3 f3) = Some c3" "c3 \<noteq> []"
  shows "\<exists>w'. generate_files [(d1, f1), (d2, f2), (d3, f3)] w = (Inr (), w')
           \<and> requests w' = requests w @
                [file_request_of w d1 f1, file_request_of w d2 f2, file_request_of w d3 f3]
           \<and> nodes w' =
               (let t = (if writable w (target d1 f1)
                         then (nodes w)(abs_path (cwd w) (target d1 f1) \<mapsto> File c1)
                         else nodes w)
                in if writable w (target d3 f3)
                   then t(abs_path (cwd w) (target d3 f3) \<mapsto> File c3)
                   else t)"
proof -
  let ?t = "if writable w (target d1 f1)
            then (nodes w)(abs_path (cwd w) (target d1 f1) \<mapsto> File c1) else nodes w"
  from generate_step_saved[OF d ex(1) s1, of "[(d2, f2), (d3, f3)]"] obtain w1 where
    w1: "generate_files [(d1, f1), (d2, f2), (d3, f3)] w = generate_files [(d2, f2), (d3, f3)] w1"
      "cwd w1 = cwd w" "service w1 = service w" "architecture_data w1 = architecture_data w"
      "requests w1 = requests w @ [file_request_of w d1 f1]"
      "nodes w1 = ?t"
    by blast
  have rq1: "file_request_of w1 = file_request_of w"
    using w1(4) by (simp add: file_request_of_def fun_eq_iff)
  have d1: "is_dict w1" using d w1(4) by (simp add: is_dict_def)
  have s2': "service w1 (length (requests w1)) (file_request_of w1 d2 f2) = None"
    using s2 by (simp add: w1(3,5) rq1)
  from generate_step_failed[OF d1 s2', of "[(d3, f3)]"] obtain w2 where
    w2: "generate_files [(d2, f2), (d3, f3)] w1 = generate_files [(d3, f3)] w2"
      "cwd w2 = cwd w1" "service w2 = service w1" "architecture_data w2 = architecture_data w1"
      "requests w2 = requests w1 @ [file_request_of w1 d2 f2]"
      "nodes w2 = nodes w1"
    by blast
  have rq2: "file_request_of w2 = file_request_of w"
    using w2(4) w1(4) by (simp add: file_request_of_def fun_eq_iff)
  have d2: "is_dict w2" using d1 w2(4) by (simp add: is_dict_def)
  have wr1: "writable w1 s = writable w s" for s
  proof (cases "writable w (target d1 f1)")
    case True
    then obtain p where p: "resolve w (target d1 f1) = Inr p" "lookup (nodes w) p \<noteq> Some Dir"
      by (auto simp: writable_def)
    from resolve_abs_path[OF p(1)] p(2)
    have q: "lookup (nodes w) (abs_path (cwd w) (target d1 f1)) \<noteq> Some Dir" by simp
    from True w1(6) have "nodes w1 = (nodes w)(abs_path (cwd w) (target d1 f1) \<mapsto> File c1)"
      by simp
    from writable_file_added[OF this q w1(2)] show ?thesis .
  next
    case False
    with w1(6) have "nodes w1 = nodes w" by simp
    from same_tree_writable[OF this w1(2)] show ?thesis .
  qed
  have wr2: "writable w2 s = writable w s" for s
    using same_tree_writable[OF w2(6,2)] wr1 by simp
  have ext: "extends (nodes w) (nodes w1)"
  proof (cases "writable w (target d1 f1)")
    case True
    then obtain p where p: "resolve w (target d1 f1) = Inr p" "lookup (nodes w) p \<noteq> Some Dir"
      by (auto simp: writable_def)
    from resolve_abs_path[OF p(1)] p(2)
    have "nodes w (abs_path (cwd w) (target d1 f1)) \<noteq> Some Dir"
      by (auto simp: lookup_def split: if_splits)
    with True w1(6) show ?thesis by (auto simp: extends_def)
  next
    case False
    with w1(6) show ?thesis by (simp add: extends_def)
  qed
  have ex2: "os_path_exists w2 (full_item d3)"
  proof -
    from ext w1(2) ex(2) have "os_path_exists w1 (full_item d3)" by (rule exists_extends)
    with same_tree_exists[OF w2(6,2)] show ?thesis by simp
  qed
  have s3': "service w2 (length (requests w2)) (file_request_of w2 d3 f3) = Some c3"
    using s3(1) by (simp add: w2(3,5) w1(3,5) rq2)
  from generate_step_saved[OF d2 ex2 s3' s3(2), of "[]"] obtain w3 where
    w3: "generate_files [(d3, f3)] w2 = generate_files [] w3"
      "requests w3 = requests w2 @ [file_request_of w2 d3 f3]"
      "nodes w3 = (if writable w2 (target d3 f3)
                   then (nodes w2)(abs_path (cwd w2) (target d3 f3) \<mapsto> File c3)
                   else nodes w2)"
    by blast
  have "generate_files [(d1, f1), (d2, f2), (d3, f3)] w = (Inr (), w3)"
    using w1(1) w2(1) w3(1) by simp
  moreover have "requests w3 = requests w @
      [file_request_of w d1 f1, file_request_of w d2 f2, file_request_of w d3 f3]"
    using w3(2) w2(5) w1(5) rq1 rq2 by simp
  moreover have "nodes w3 = (let t = ?t in if writable w (target d3 f3)
                   then t(abs_path (cwd w) (target d3 f3) \<mapsto> File c3) else t)"
    using w3(3) wr2 w2(2,6) w1(2,6) by (simp only: Let_def)
  ultimately show ?thesis by blast
qed

text \<open>
  C6, amended. A run whose generation sequence has three pairs: the request for the
  second file fails, the requests for the first and the third are answered with
  non-empty text, and the folders of the first and the third exist after the walk. Then
  the run returns normally and exactly the three requests were sent, in the order of the
  sequence. A text received is written only where its target can be opened for writing
  (the parent of the target is a directory and the target is not): the tree after the
  run is the tree after the walk with the first file written if its target can be
  opened, then the third written if its target can be opened. A target that cannot be
  opened is left out, as \<^verbatim>\<open>save_file_to_output\<close> catches the error of \<^verbatim>\<open>open\<close>;
  nothing is written for the second file.
\<close>

theorem partial_failure_continues:
  assumes c: "create_folder_or_file OUTPUT_PATH [] w = (Inr (), w0)"
    and a: "architecture_data w = JObj kvs"
    and sw: "scaffold_walk (dict_get kvs ''file_scaffolding'' (JObj [])) w0
               = (Inr [(d1, f1), (d2, f2), (d3, f3)], u)"
    and ex: "os_path_exists u (full_item d1)" "os_path_exists u (full_item d3)"
    and s1: "service u (length (requests u)) (file_request_of u d1 f1) = Some c1" "c1 \<noteq> []"
    and s2: "service u (length (requests u) + 1) (file_request_of u d2 f2) = None"
    and s3: "service u (length (requests u) + 2) (file_request_of u d3 f3) = Some c3" "c3 \<noteq> []"
  shows "\<exists>w'. generate_software_files w = (Inr (), w')
           \<and> requests w' = requests u @
                [file_request_of u d1 f1, file_request_of u d2 f2, file_request_of u d3 f3]
           \<and> nodes w' =
               (let t = (if writable u (target d1 f1)
                         then (nodes u)(abs_path (cwd u) (target d1 f1) \<mapsto> File c1)
                         else nodes u)
                in if writable u (target d3 f3)
                   then t(abs_path (cwd u) (target d3 f3) \<mapsto> File c3)
                   else t)"
proof -
  from create_OUT_evolves[OF c] a have a0: "architecture_data w0 = JObj kvs"
    by (simp add: evolves_def)
  with scaffold_walk_evolves[OF sw] have "is_dict u"
    by (simp add: evolves_def is_dict_def)
  from generate_three[OF this ex s1 s2 s3] obtain w' where
    w': "generate_files [(d1, f1), (d2, f2), (d3, f3)] u = (Inr (), w')"
      "requests w' = requests u @
                [file_request_of u d1 f1, file_request_of u d2 f2, file_request_of u d3 f3]"
      "nodes w' =
               (let t = (if writable u (target d1 f1)
                         then (nodes u)(abs_path (cwd u) (target d1 f1) \<mapsto> File c1)
                         else nodes u)
                in if writable u (target d3 f3)
                   then t(abs_path (cwd u) (target d3 f3) \<mapsto> File c3)
                   else t)"
    by blast
  have "generate_software_files w = (Inr (), w')"
    using c a0 sw w'(1) by (simp add: generate_software_files_def)
  with w'(2,3) show ?thesis by blast
qed

text \<open>
  C6, amended, on the proposal \<^verbatim>\<open>{"src": ["a.py", "b.py", "c.py"]}\<close> with a service that
  fails on the second request only: \<^verbatim>\<open>a.py\<close> and \<^verbatim>\<open>c.py\<close> are written under
  \<^verbatim>\<open>Output/src\<close>, \<^verbatim>\<open>b.py\<close> is not.
\<close>

theorem partial_failure_continues_witness:
  "\<exists>w'. generate_software_files
            (approved_world (JObj [(''src'', JArr [JStr ''a.py'', JStr ''b.py'', JStr ''c.py''])])
               (\<lambda>n r. if n = 0 then Some ''one'' else if n = 1 then None else Some ''three''))
          = (Inr (), w')
     \<and> length (requests w') = 3
     \<and> nodes w' [''Output'', ''src'', ''a.py''] = Some (File ''one'')
     \<and> nodes w' [''Output'', ''src'', ''b.py''] = None
     \<and> nodes w' [''Output'', ''src'', ''c.py''] = Some (File ''three'')"
proof -
  let ?sc = "JObj [(''src'', JArr [JStr ''a.py'', JStr ''b.py'', JStr ''c.py''])]"
  let ?svc = "\<lambda>(n::nat) (r::request). if n = 0 then Some ''one'' else if n = 1 then None else Some ''three''"
  let ?w = "approved_world ?sc ?svc"
  let ?v = "?w\<lparr>nodes := [[''Output''] \<mapsto> Dir]\<rparr>"
  let ?u = "?w\<lparr>nodes := [[''Output''] \<mapsto> Dir, [''Output'', ''src''] \<mapsto> Dir]\<rparr>"
  have c: "create_folder_or_file OUTPUT_PATH [] ?w = (Inr (), ?v)"
    by (simp add: run_eval)
  have a: "architecture_data ?w = JObj [(''software_architecture'', JStr ''layers''),
      (''technical_stacks'', JArr [JStr ''python'']), (''file_scaffolding'', ?sc),
      (''number_of_files'', JInt 2), (''number_of_prompts'', JInt 3)]"
    by (simp add: approved_world_def initial_world_def proposal_def)
  have g: "dict_get [(''software_architecture'', JStr ''layers''),
      (''technical_stacks'', JArr [JStr ''python'']), (''file_scaffolding'', ?sc),
      (''number_of_files'', JInt 2), (''number_of_prompts'', JInt 3)] ''file_scaffolding'' (JObj []) = ?sc"
    by (simp add: dict_get_def)
  have sw: "scaffold_walk ?sc ?v = (Inr [(''src'', ''a.py''), (''src'', ''b.py''), (''src'', ''c.py'')], ?u)"
    by (simp add: run_eval)
  have u: "nodes ?u = [[''Output''] \<mapsto> Dir, [''Output'', ''src''] \<mapsto> Dir]" "cwd ?u = []"
    "requests ?u = []" "service ?u = ?svc" "architecture_data ?u = proposal ?sc"
    by (simp_all add: approved_world_def initial_world_def)
  have ex: "os_path_exists ?u (full_item ''src'')"
    by (simp add: os_path_exists_def resolve_def u full_item_def OUTPUT_PATH_def path_join_def
          components_def is_absolute_def step_def lookup_def)
  have wr: "writable ?u (target ''src'' ''a.py'')" "writable ?u (target ''src'' ''c.py'')"
    by (simp_all add: writable_def resolve_def u target_def OUTPUT_PATH_def path_join_def
          components_def is_absolute_def step_def lookup_def ends_with_sep_def)
  have ap: "abs_path [] (target ''src'' ''a.py'') = [''Output'', ''src'', ''a.py'']"
    "abs_path [] (target ''src'' ''c.py'') = [''Output'', ''src'', ''c.py'']"
    by (simp_all add: abs_path_def target_def OUTPUT_PATH_def path_join_def
          components_def is_absolute_def step_def)
  have s: "service ?u (length (requests ?u)) (file_request_of ?u ''src'' ''a.py'') = Some ''one''"
    "service ?u (length (requests ?u) + 1) (file_request_of ?u ''src'' ''b.py'') = None"
    "service ?u (length (requests ?u) + 2) (file_request_of ?u ''src'' ''c.py'') = Some ''three''"
    by (simp_all add: approved_world_def initial_world_def)
  have sw': "scaffold_walk (dict_get [(''software_architecture'', JStr ''layers''),
      (''technical_stacks'', JArr [JStr ''python'']), (''file_scaffolding'', ?sc),
      (''number_of_files'', JInt 2), (''number_of_prompts'', JInt 3)] ''file_scaffolding'' (JObj [])) ?v
      = (Inr [(''src'', ''a.py''), (''src'', ''b.py''), (''src'', ''c.py'')], ?u)"
    unfolding g by (rule sw)
  from partial_failure_continues[OF c a sw' ex ex s(1) _ s(2) s(3)] wr
  obtain w' where w': "generate_software_files ?w = (Inr (), w')"
    "requests w' = requests ?u @ [file_request_of ?u ''src'' ''a.py'', file_request_of ?u ''src'' ''b.py'',
        file_request_of ?u ''src'' ''c.py'']"
    "nodes w' = (nodes ?u)(abs_path (cwd ?u) (target ''src'' ''a.py'') \<mapsto> File ''one'',
                          abs_path (cwd ?u) (target ''src'' ''c.py'') \<mapsto> File ''three'')"
    by (auto simp: Let_def)
  from w'(2) have "length (requests w') = 3" by (simp add: u)
  moreover from w'(3) have "nodes w' [''Output'', ''src'', ''a.py''] = Some (File ''one'')"
    "nodes w' [''Output'', ''src'', ''b.py''] = None"
    "nodes w' [''Output'', ''src'', ''c.py''] = Some (File ''three'')"
    by (simp_all add: ap u)
  ultimately show ?thesis using w'(1) by blast
qed

text \<open>
  C6 as stated fails on the flat list \<^verbatim>\<open>["x/a.py", "b.py", "c.py"]\<close> with a service that
  fails on the second request only. The run returns normally and the three requests are
  sent, the first is answered with the text \<^verbatim>\<open>one\<close>, but \<^verbatim>\<open>Output/x\<close> does not
  exist, \<^verbatim>\<open>open("Output/x/a.py", "w")\<close> fails, the error is caught and reported, and
  the first file is not written.
\<close>

theorem partial_failure_unwritten_counterexample:
  "fst (generate_software_files
          (approved_world (JArr [JStr ''x/a.py'', JStr ''b.py'', JStr ''c.py''])
             (\<lambda>n r. if n = 0 then Some ''one'' else if n = 1 then None else Some ''three''))) = Inr ()
   \<and> requests (snd (generate_software_files
          (approved_world (JArr [JStr ''x/a.py'', JStr ''b.py'', JStr ''c.py''])
             (\<lambda>n r. if n = 0 then Some ''one'' else if n = 1 then None else Some ''three''))))
      = [File_request (JStr ''layers'') (JArr [JStr ''python'']) [] ''x/a.py'',
         File_request (JStr ''layers'') (JArr [JStr ''python'']) [] ''b.py'',
         File_request (JStr ''layers'') (JArr [JStr ''python'']) [] ''c.py'']
   \<and> nodes (snd (generate_software_files
          (approved_world (JArr [JStr ''x/a.py'', JStr ''b.py'', JStr ''c.py''])
             (\<lambda>n r. if n = 0 then Some ''one'' else if n = 1 then None else Some ''three''))))
        [''Output'', ''x'', ''a.py''] = None
   \<and> nodes (snd (generate_software_files
          (approved_world (JArr [JStr ''x/a.py'', JStr ''b.py'', JStr ''c.py''])
             (\<lambda>n r. if n = 0 then Some ''one'' else if n = 1 then None else Some ''three''))))
        [''Output'', ''x''] = None
   \<and> nodes (snd (generate_software_files
          (approved_world (JArr [JStr ''x/a.py'', JStr ''b.py'', JStr ''c.py''])
             (\<lambda>n r. if n = 0 then Some ''one'' else if n = 1 then None else Some ''three''))))
        [''Output'', ''c.py''] = Some (File ''three'')
   \<and> stdout (snd (generate_software_files
          (approved_world (JArr [JStr ''x/a.py'', JStr ''b.py'', JStr ''c.py''])
             (\<lambda>n r. if n = 0 then Some ''one'' else if n = 1 then None else Some ''three''))))
      = [Requesting ''x/a.py'' [], Error_saving ''Output/x/a.py'',
         Requesting ''b.py'' [], Error_file_content, Failed_to_retrieve ''b.py'',
         Requesting ''c.py'' [], Saved_file ''Output/c.py'']"
  by (simp add: run_eval)

subsection \<open>The dot rule and the flat list\<close>






subsection \<open>The example scaffold\<close>

text \<open>
  C2. The proposal holds the scaffold \<^verbatim>\<open>{"src": ["main.py", "utils.py"], "docs": []}\<close>
  and the working directory has no \<^verbatim>\<open>Output\<close> yet. The run creates \<^verbatim>\<open>Output\<close>; the
  Walker then creates \<^verbatim>\<open>Output/src\<close> and \<^verbatim>\<open>Output/docs\<close>, changes nothing else and
  sends no request, and its generation sequence is \<^verbatim>\<open>("src", "main.py")\<close>,
  \<^verbatim>\<open>("src", "utils.py")\<close>; the run returns normally and its content requests are those
  for the two pairs, in that order.
\<close>

theorem walker_example:
  assumes cw: "lookup (nodes w) (cwd w) = Some Dir"
    and fresh: "\<forall>p. nodes w (cwd w @ ''Output'' # p) = None"
    and arch: "architecture_data w = JObj kvs"
    and sc: "dict_get kvs ''file_scaffolding'' (JObj [])
               = JObj [(''src'', JArr [JStr ''main.py'', JStr ''utils.py'']), (''docs'', JArr [])]"
  shows "\<exists>w1 w2 w3.
           create_folder_or_file OUTPUT_PATH [] w = (Inr (), w1)
         \<and> scaffold_walk (JObj [(''src'', JArr [JStr ''main.py'', JStr ''utils.py'']), (''docs'', JArr [])]) w1
             = (Inr [(''src'', ''main.py''), (''src'', ''utils.py'')], w2)
         \<and> nodes w2 = (nodes w)(cwd w @ [''Output''] \<mapsto> Dir, cwd w @ [''Output'', ''src''] \<mapsto> Dir,
                                 cwd w @ [''Output'', ''docs''] \<mapsto> Dir)
         \<and> requests w2 = requests w
         \<and> generate_software_files w = (Inr (), w3)
         \<and> requests w3 = requests w @
              [file_request_of w ''src'' ''main.py'', file_request_of w ''src'' ''utils.py'']"
proof -
  let ?sc = "JObj [(''src'', JArr [JStr ''main.py'', JStr ''utils.py'']), (''docs'', JArr [])]"
  let ?o = "cwd w @ [''Output'']"
  let ?s = "cwd w @ [''Output'', ''src'']"
  let ?d = "cwd w @ [''Output'', ''docs'']"
  let ?w1 = "w\<lparr>nodes := (nodes w)(?o \<mapsto> Dir)\<rparr>"
  let ?w2 = "w\<lparr>nodes := (nodes w)(?o \<mapsto> Dir, ?s \<mapsto> Dir, ?d \<mapsto> Dir)\<rparr>"
  have f: "nodes w ?o = None" "nodes w ?s = None" "nodes w ?d = None"
    using fresh[rule_format, of "[]"] fresh[rule_format, of "[''src'']"] fresh[rule_format, of "[''docs'']"]
    by simp_all
  have cwl: "\<And>t. t (cwd w) = nodes w (cwd w) \<Longrightarrow> lookup t (cwd w) = Some Dir"
    using cw by (cases "cwd w = []") (simp_all add: lookup_def)
  have lk: "\<And>t p c q. lookup t (p @ c # q) = t (p @ c # q)" by (simp add: lookup_def)
  have st: "\<And>p. step p ''Output'' = p @ [''Output'']" "\<And>p. step p ''src'' = p @ [''src'']"
    "\<And>p. step p ''docs'' = p @ [''docs'']"
    by (simp_all add: step_def)
  have cp: "components ''Output'' = [''Output'']" "components ''Output/src'' = [''Output'', ''src'']"
    "components ''Output/docs'' = [''Output'', ''docs'']"
    by (simp_all add: components_def)
  have fi: "full_item [] = ''Output''" "full_item ''src'' = ''Output/src''"
    "full_item ''docs'' = ''Output/docs''"
    by (simp_all add: full_item_def OUTPUT_PATH_def path_join_def)
  have ab: "\<not> is_absolute ''Output''" "\<not> is_absolute ''Output/src''" "\<not> is_absolute ''Output/docs''"
    by (simp_all add: is_absolute_def)
  have c1: "create_folder_or_file OUTPUT_PATH [] w = (Inr (), ?w1)"
    using cw f(1)
    by (simp add: create_OUT fi os_path_exists_def resolve_def ab cp st lk os_makedirs_def Let_def)
  have cw1: "lookup (nodes ?w1) (cwd w) = Some Dir" by (rule cwl) simp
  have c2: "create_folder_or_file OUTPUT_PATH ''src'' ?w1 = (Inr (), w\<lparr>nodes := (nodes w)(?o \<mapsto> Dir, ?s \<mapsto> Dir)\<rparr>)"
    using cw1 f(2)
    by (simp add: create_OUT fi os_path_exists_def resolve_def ab cp st lk os_makedirs_def Let_def)
  have cw2: "lookup (nodes (w\<lparr>nodes := (nodes w)(?o \<mapsto> Dir, ?s \<mapsto> Dir)\<rparr>)) (cwd w) = Some Dir"
    by (rule cwl) simp
  have c3: "create_folder_or_file OUTPUT_PATH ''docs'' (w\<lparr>nodes := (nodes w)(?o \<mapsto> Dir, ?s \<mapsto> Dir)\<rparr>)
      = (Inr (), ?w2)"
    using cw2 f(3)
    by (simp add: create_OUT fi os_path_exists_def resolve_def ab cp st lk os_makedirs_def Let_def)
  have sw: "scaffold_walk ?sc ?w1 = (Inr [(''src'', ''main.py''), (''src'', ''utils.py'')], ?w2)"
    by (simp add: scaffold_walk_def c2 c3 rstrip_def)
  have d2: "is_dict ?w2" using arch by (simp add: is_dict_def)
  have cw3: "lookup (nodes ?w2) (cwd w) = Some Dir" by (rule cwl) simp
  have ex: "\<forall>f\<in>fst ` set [(''src'', ''main.py''), (''src'', ''utils.py'')]. os_path_exists ?w2 (full_item f)"
    using cw3 by (simp add: fi os_path_exists_def resolve_def ab cp st lk)
  from generate_files_requests[OF d2 ex] obtain w3 where
    w3: "generate_files [(''src'', ''main.py''), (''src'', ''utils.py'')] ?w2 = (Inr (), w3)"
      "requests w3 = requests ?w2 @ map (\<lambda>(folder, filename). file_request_of ?w2 folder filename)
          [(''src'', ''main.py''), (''src'', ''utils.py'')]"
    by blast
  have rq: "file_request_of ?w2 = file_request_of w"
    by (simp add: file_request_of_def fun_eq_iff)
  have g: "generate_software_files w = (Inr (), w3)"
    using c1 arch sc sw w3(1) by (simp add: generate_software_files_def)
  show ?thesis
    using c1 sw g w3(2) rq by (intro exI[of _ ?w1] exI[of _ ?w2] exI[of _ w3]) simp
qed

text \<open>C2 on a session that starts in an empty directory.\<close>

theorem walker_example_witness:
  "\<exists>w1 w2 w3.
     create_folder_or_file OUTPUT_PATH []
        (approved_world (JObj [(''src'', JArr [JStr ''main.py'', JStr ''utils.py'']), (''docs'', JArr [])])
           (\<lambda>n r. Some ''text'')) = (Inr (), w1)
     \<and> scaffold_walk (JObj [(''src'', JArr [JStr ''main.py'', JStr ''utils.py'']), (''docs'', JArr [])]) w1
         = (Inr [(''src'', ''main.py''), (''src'', ''utils.py'')], w2)
     \<and> nodes w2 [''Output'', ''src''] = Some Dir \<and> nodes w2 [''Output'', ''docs''] = Some Dir
     \<and> generate_software_files
        (approved_world (JObj [(''src'', JArr [JStr ''main.py'', JStr ''utils.py'']), (''docs'', JArr [])])
           (\<lambda>n r. Some ''text'')) = (Inr (), w3)
     \<and> requests w3 = [File_request (JStr ''layers'') (JArr [JStr ''python'']) ''src'' ''main.py'',
                       File_request (JStr ''layers'') (JArr [JStr ''python'']) ''src'' ''utils.py'']"
proof -
  let ?sc = "JObj [(''src'', JArr [JStr ''main.py'', JStr ''utils.py'']), (''docs'', JArr [])]"
  let ?w = "approved_world ?sc (\<lambda>n r. Some ''text'')"
  have 1: "lookup (nodes ?w) (cwd ?w) = Some Dir"
    by (simp add: approved_world_def initial_world_def lookup_def)
  have 2: "\<forall>p. nodes ?w (cwd ?w @ ''Output'' # p) = None"
    by (simp add: approved_world_def initial_world_def)
  have 3: "architecture_data ?w = JObj [(''software_architecture'', JStr ''layers''),
      (''technical_stacks'', JArr [JStr ''python'']), (''file_scaffolding'', ?sc),
      (''number_of_files'', JInt 2), (''number_of_prompts'', JInt 3)]"
    by (simp add: approved_world_def initial_world_def proposal_def)
  have 4: "dict_get [(''software_architecture'', JStr ''layers''),
      (''technical_stacks'', JArr [JStr ''python'']), (''file_scaffolding'', ?sc),
      (''number_of_files'', JInt 2), (''number_of_prompts'', JInt 3)] ''file_scaffolding'' (JObj []) = ?sc"
    by (simp add: dict_get_def)
  have 5: "cwd ?w = []" "requests ?w = []"
    "file_request_of ?w ''src'' ''main.py'' = File_request (JStr ''layers'') (JArr [JStr ''python'']) ''src'' ''main.py''"
    "file_request_of ?w ''src'' ''utils.py'' = File_request (JStr ''layers'') (JArr [JStr ''python'']) ''src'' ''utils.py''"
    by (simp_all add: approved_world_def initial_world_def proposal_def file_request_of_def dict_get_def)
  from walker_example[OF 1 2 3 4] obtain w1 w2 w3 where
    r: "create_folder_or_file OUTPUT_PATH [] ?w = (Inr (), w1)"
       "scaffold_walk ?sc w1 = (Inr [(''src'', ''main.py''), (''src'', ''utils.py'')], w2)"
       "nodes w2 = (nodes ?w)(cwd ?w @ [''Output''] \<mapsto> Dir, cwd ?w @ [''Output'', ''src''] \<mapsto> Dir,
                                 cwd ?w @ [''Output'', ''docs''] \<mapsto> Dir)"
       "generate_software_files ?w = (Inr (), w3)"
       "requests w3 = requests ?w @
              [file_request_of ?w ''src'' ''main.py'', file_request_of ?w ''src'' ''utils.py'']"
    by blast
  from r(3) have "nodes w2 [''Output'', ''src''] = Some Dir" "nodes w2 [''Output'', ''docs''] = Some Dir"
    by (simp_all add: 5)
  moreover from r(5) have "requests w3 = [File_request (JStr ''layers'') (JArr [JStr ''python'']) ''src'' ''main.py'',
                       File_request (JStr ''layers'') (JArr [JStr ''python'']) ''src'' ''utils.py'']"
    by (simp add: 5)
  ultimately show ?thesis using r(1,2,4) by blast
qed

end
